theory Spec2Isabelle
  imports Main "HOL-Library.Multiset" "HOL-Library.Char_ord" "HOL-Library.List_Lexorder"
begin

section \<open>Errors\<close>

text \<open>
  The containers of \<^verbatim>\<open>STL_Simulation.py\<close> report an operation on an empty container
  with Python's \<^verbatim>\<open>IndexError\<close> (the specification calls it \<^verbatim>\<open>EmptyContainer\<close>).
  Two more exceptions can leave the modelled code: \<^verbatim>\<open>AttributeError\<close>, when a field
  of \<^verbatim>\<open>None\<close> is read or written, and \<^verbatim>\<open>TypeError\<close>, when \<^verbatim>\<open><\<close> is applied to
  values of different types. A raised exception is the \<open>Inl\<close> of a result; the state
  the call leaves behind is returned next to it.
\<close>

datatype error = IndexError | AttributeError | TypeError

section \<open>The doubly-linked list (class List)\<close>

subsection \<open>Nodes and the object store\<close>

text \<open>
  A \<^verbatim>\<open>ListNode\<close> object has the fields \<^verbatim>\<open>data\<close>, \<^verbatim>\<open>next\<close> and \<^verbatim>\<open>prev\<close>. Objects
  live in a store, a list of nodes; a reference is an index of the store and
  \<^verbatim>\<open>None\<close> is \<open>None\<close>. \<^verbatim>\<open>ListNode(value)\<close> allocates at the end of the store, so a
  new node is different from every older one. Python never frees a node that is
  still referenced: nodes that a pop unlinks simply stay in the store.
\<close>

type_synonym ref = nat

record 'a ListNode =
  data :: 'a
  nxt :: "ref option"
  prev :: "ref option"

record 'a List_t =
  nodes :: "'a ListNode list"
  head :: "ref option"
  tail :: "ref option"
  size_f :: int

definition ListNode_init :: "'a \<Rightarrow> 'a ListNode" where
  "ListNode_init v = \<lparr>data = v, nxt = None, prev = None\<rparr>"

definition set_next :: "'a ListNode list \<Rightarrow> ref \<Rightarrow> ref option \<Rightarrow> 'a ListNode list" where
  "set_next st a v = st[a := (st ! a)\<lparr>nxt := v\<rparr>]"

definition set_prev :: "'a ListNode list \<Rightarrow> ref \<Rightarrow> ref option \<Rightarrow> 'a ListNode list" where
  "set_prev st a v = st[a := (st ! a)\<lparr>prev := v\<rparr>]"

subsection \<open>The methods\<close>

definition List_size :: "'a List_t \<Rightarrow> int" where
  "List_size l = size_f l"

definition List_empty :: "'a List_t \<Rightarrow> bool" where
  "List_empty l \<longleftrightarrow> size_f l = 0"

definition List_push_front :: "'a List_t \<Rightarrow> 'a \<Rightarrow> (error + unit) \<times> 'a List_t" where
  "List_push_front l v =
     (let new_node = length (nodes l);
          l1 = l\<lparr>nodes := nodes l @ [ListNode_init v]\<rparr>
      in if List_empty l1
         then (Inr (), l1\<lparr>head := Some new_node, tail := Some new_node,
                           size_f := size_f l1 + 1\<rparr>)
         else (let st = set_next (nodes l1) new_node (head l1) in
               case head l1 of
                 None \<Rightarrow> (Inl AttributeError, l1\<lparr>nodes := st\<rparr>)
               | Some h \<Rightarrow>
                   (Inr (), l1\<lparr>nodes := set_prev st h (Some new_node),
                               head := Some new_node, size_f := size_f l1 + 1\<rparr>)))"

definition List_push_back :: "'a List_t \<Rightarrow> 'a \<Rightarrow> (error + unit) \<times> 'a List_t" where
  "List_push_back l v =
     (let new_node = length (nodes l);
          l1 = l\<lparr>nodes := nodes l @ [ListNode_init v]\<rparr>
      in if List_empty l1
         then (Inr (), l1\<lparr>head := Some new_node, tail := Some new_node,
                           size_f := size_f l1 + 1\<rparr>)
         else (case tail l1 of
                 None \<Rightarrow> (Inl AttributeError, l1)
               | Some t \<Rightarrow>
                   (Inr (), l1\<lparr>nodes := set_prev (set_next (nodes l1) t (Some new_node))
                                           new_node (Some t),
                               tail := Some new_node, size_f := size_f l1 + 1\<rparr>)))"

definition List_pop_front :: "'a List_t \<Rightarrow> (error + 'a) \<times> 'a List_t" where
  "List_pop_front l =
     (if List_empty l then (Inl IndexError, l)
      else case head l of
        None \<Rightarrow> (Inl AttributeError, l)
      | Some h \<Rightarrow>
          (let v = data (nodes l ! h) in
           if head l = tail l
           then (Inr v, l\<lparr>head := None, tail := None, size_f := size_f l - 1\<rparr>)
           else (let l1 = l\<lparr>head := nxt (nodes l ! h)\<rparr> in
                 case head l1 of
                   None \<Rightarrow> (Inl AttributeError, l1)
                 | Some h' \<Rightarrow>
                     (Inr v, l1\<lparr>nodes := set_prev (nodes l1) h' None,
                                 size_f := size_f l1 - 1\<rparr>))))"

definition List_pop_back :: "'a List_t \<Rightarrow> (error + 'a) \<times> 'a List_t" where
  "List_pop_back l =
     (if List_empty l then (Inl IndexError, l)
      else case tail l of
        None \<Rightarrow> (Inl AttributeError, l)
      | Some t \<Rightarrow>
          (let v = data (nodes l ! t) in
           if head l = tail l
           then (Inr v, l\<lparr>head := None, tail := None, size_f := size_f l - 1\<rparr>)
           else (let l1 = l\<lparr>tail := prev (nodes l ! t)\<rparr> in
                 case tail l1 of
                   None \<Rightarrow> (Inl AttributeError, l1)
                 | Some t' \<Rightarrow>
                     (Inr v, l1\<lparr>nodes := set_next (nodes l1) t' None,
                                 size_f := size_f l1 - 1\<rparr>))))"

definition List_front :: "'a List_t \<Rightarrow> (error + 'a) \<times> 'a List_t" where
  "List_front l =
     (if List_empty l then (Inl IndexError, l)
      else case head l of
        None \<Rightarrow> (Inl AttributeError, l)
      | Some h \<Rightarrow> (Inr (data (nodes l ! h)), l))"

definition List_back :: "'a List_t \<Rightarrow> (error + 'a) \<times> 'a List_t" where
  "List_back l =
     (if List_empty l then (Inl IndexError, l)
      else case tail l of
        None \<Rightarrow> (Inl AttributeError, l)
      | Some t \<Rightarrow> (Inr (data (nodes l ! t)), l))"

definition List_clear :: "'a List_t \<Rightarrow> (error + unit) \<times> 'a List_t" where
  "List_clear l = (Inr (), l\<lparr>head := None, tail := None, size_f := 0\<rparr>)"

text \<open>
  \<^verbatim>\<open>__init__\<close>: the fields are set to the empty list, then every initial element is
  appended with \<^verbatim>\<open>push_back\<close>. \<^verbatim>\<open>if initial_elements:\<close> skips both \<^verbatim>\<open>None\<close> and
  the empty list. An exception of a \<^verbatim>\<open>push_back\<close> ends the loop.
\<close>

fun push_back_all :: "'a List_t \<Rightarrow> 'a list \<Rightarrow> (error + unit) \<times> 'a List_t" where
  "push_back_all l [] = (Inr (), l)"
| "push_back_all l (x # xs) =
     (case List_push_back l x of
        (Inl e, l') \<Rightarrow> (Inl e, l')
      | (Inr u, l') \<Rightarrow> push_back_all l' xs)"

definition List_init :: "'a list option \<Rightarrow> (error + unit) \<times> 'a List_t" where
  "List_init initial_elements =
     (let l = \<lparr>nodes = [], head = None, tail = None, size_f = 0\<rparr> in
      case initial_elements of
        None \<Rightarrow> (Inr (), l)
      | Some xs \<Rightarrow> push_back_all l xs)"

text \<open>
  \<^verbatim>\<open>__iter__\<close> walks the \<^verbatim>\<open>next\<close> fields from \<^verbatim>\<open>_head\<close> and yields the data of
  every node it visits, until \<^verbatim>\<open>current\<close> is \<^verbatim>\<open>None\<close>. On a store whose links
  form a cycle the loop never ends: the model's value is then \<open>None\<close>. \<open>Some vs\<close>
  is the finite sequence of the yielded values.
\<close>

partial_function (option) iter_loop :: "'a ListNode list \<Rightarrow> ref option \<Rightarrow> 'a list option" where
  "iter_loop st current =
     (case current of
        None \<Rightarrow> Some []
      | Some a \<Rightarrow>
          Option.bind (iter_loop st (nxt (st ! a))) (\<lambda>vs. Some (data (st ! a) # vs)))"

definition List_iter :: "'a List_t \<Rightarrow> 'a list option" where
  "List_iter l = iter_loop (nodes l) (head l)"

subsection \<open>Sequences of calls\<close>

text \<open>
  A client of the list makes calls one after the other. A call either returns
  \<^verbatim>\<open>None\<close>, returns a value, or raises; \<open>List_trace\<close> records what each call of a
  sequence answers together with \<^verbatim>\<open>size()\<close> right after it, \<open>List_after\<close> is the
  list the sequence leaves behind, and \<open>reached\<close> are the lists a client can hold:
  the constructor's result after any sequence of calls.
\<close>

datatype 'a op = Push_front 'a | Push_back 'a | Pop_front | Pop_back | Front | Back | Clear

definition returns_None :: "(error + unit) \<times> 's \<Rightarrow> (error + 'a option) \<times> 's" where
  "returns_None r = (case r of (Inl e, s) \<Rightarrow> (Inl e, s) | (Inr u, s) \<Rightarrow> (Inr None, s))"

definition returns_value :: "(error + 'a) \<times> 's \<Rightarrow> (error + 'a option) \<times> 's" where
  "returns_value r = (case r of (Inl e, s) \<Rightarrow> (Inl e, s) | (Inr v, s) \<Rightarrow> (Inr (Some v), s))"

fun List_call :: "'a List_t \<Rightarrow> 'a op \<Rightarrow> (error + 'a option) \<times> 'a List_t" where
  "List_call l (Push_front v) = returns_None (List_push_front l v)"
| "List_call l (Push_back v) = returns_None (List_push_back l v)"
| "List_call l Pop_front = returns_value (List_pop_front l)"
| "List_call l Pop_back = returns_value (List_pop_back l)"
| "List_call l Front = returns_value (List_front l)"
| "List_call l Back = returns_value (List_back l)"
| "List_call l Clear = returns_None (List_clear l)"

fun List_after :: "'a List_t \<Rightarrow> 'a op list \<Rightarrow> 'a List_t" where
  "List_after l [] = l"
| "List_after l (c # cs) = List_after (snd (List_call l c)) cs"

fun List_trace :: "'a List_t \<Rightarrow> 'a op list \<Rightarrow> ((error + 'a option) \<times> int) list" where
  "List_trace l [] = []"
| "List_trace l (c # cs) =
     (case List_call l c of (r, l') \<Rightarrow> (r, List_size l') # List_trace l' cs)"

definition reached :: "'a list option \<Rightarrow> 'a op list \<Rightarrow> 'a List_t" where
  "reached initial_elements cs = List_after (snd (List_init initial_elements)) cs"

subsection \<open>The reference double-ended queue\<close>

text \<open>
  The reference is the mathematical sequence of the elements, front first. Taking
  from an empty sequence is the error; nothing else fails.
\<close>

fun deque_call :: "'a list \<Rightarrow> 'a op \<Rightarrow> (error + 'a option) \<times> 'a list" where
  "deque_call xs (Push_front v) = (Inr None, v # xs)"
| "deque_call xs (Push_back v) = (Inr None, xs @ [v])"
| "deque_call xs Pop_front =
     (case xs of [] \<Rightarrow> (Inl IndexError, xs) | x # r \<Rightarrow> (Inr (Some x), r))"
| "deque_call xs Pop_back =
     (if xs = [] then (Inl IndexError, xs) else (Inr (Some (last xs)), butlast xs))"
| "deque_call xs Front =
     (case xs of [] \<Rightarrow> (Inl IndexError, xs) | x # r \<Rightarrow> (Inr (Some x), xs))"
| "deque_call xs Back =
     (if xs = [] then (Inl IndexError, xs) else (Inr (Some (last xs)), xs))"
| "deque_call xs Clear = (Inr None, [])"

fun deque_after :: "'a list \<Rightarrow> 'a op list \<Rightarrow> 'a list" where
  "deque_after xs [] = xs"
| "deque_after xs (c # cs) = deque_after (snd (deque_call xs c)) cs"

fun deque_trace :: "'a list \<Rightarrow> 'a op list \<Rightarrow> ((error + 'a option) \<times> int) list" where
  "deque_trace xs [] = []"
| "deque_trace xs (c # cs) =
     (case deque_call xs c of (r, xs') \<Rightarrow> (r, int (length xs')) # deque_trace xs' cs)"

definition initial_deque :: "'a list option \<Rightarrow> 'a list" where
  "initial_deque initial_elements = (case initial_elements of None \<Rightarrow> [] | Some xs \<Rightarrow> xs)"

subsection \<open>The representation\<close>

text \<open>
  \<open>dl_seg st p as q\<close>: in the store \<open>st\<close> the nodes \<open>as\<close> are allocated and linked
  in this order in both directions; the first one's \<^verbatim>\<open>prev\<close> is \<open>p\<close> and the last
  one's \<^verbatim>\<open>next\<close> is \<open>q\<close>. A list object represents the node sequence \<open>as\<close> when
  the nodes are pairwise different, linked from \<^verbatim>\<open>None\<close> to \<^verbatim>\<open>None\<close>, \<^verbatim>\<open>_head\<close> and
  \<^verbatim>\<open>_tail\<close> are its ends and \<^verbatim>\<open>_size\<close> is its length. \<open>models l xs\<close>: the list
  object holds the values \<open>xs\<close>, front first.
\<close>

fun dl_seg :: "'a ListNode list \<Rightarrow> ref option \<Rightarrow> ref list \<Rightarrow> ref option \<Rightarrow> bool" where
  "dl_seg st p [] q \<longleftrightarrow> True"
| "dl_seg st p (a # as) q \<longleftrightarrow>
     a < length st \<and> prev (st ! a) = p \<and>
     nxt (st ! a) = (case as of [] \<Rightarrow> q | b # _ \<Rightarrow> Some b) \<and>
     dl_seg st (Some a) as q"

definition first_ref :: "ref list \<Rightarrow> ref option" where
  "first_ref as = (case as of [] \<Rightarrow> None | a # _ \<Rightarrow> Some a)"

definition last_ref :: "ref list \<Rightarrow> ref option" where
  "last_ref as = (if as = [] then None else Some (last as))"

definition rep :: "'a List_t \<Rightarrow> ref list \<Rightarrow> bool" where
  "rep l as \<longleftrightarrow>
     distinct as \<and> dl_seg (nodes l) None as None \<and>
     head l = first_ref as \<and> tail l = last_ref as \<and> size_f l = int (length as)"

definition vals :: "'a ListNode list \<Rightarrow> ref list \<Rightarrow> 'a list" where
  "vals st as = map (\<lambda>a. data (st ! a)) as"

definition models :: "'a List_t \<Rightarrow> 'a list \<Rightarrow> bool" where
  "models l xs \<longleftrightarrow> (\<exists>as. rep l as \<and> vals (nodes l) as = xs)"

text \<open>
  The nodes met by following \<^verbatim>\<open>next\<close> from a reference, in the order met; \<open>None\<close>
  when the walk does not end.
\<close>

partial_function (option) walk :: "'a ListNode list \<Rightarrow> ref option \<Rightarrow> ref list option" where
  "walk st current =
     (case current of
        None \<Rightarrow> Some []
      | Some a \<Rightarrow> Option.bind (walk st (nxt (st ! a))) (\<lambda>as. Some (a # as)))"

text \<open>
  The representation invariant of the specification, read on a list object: the walk
  from \<^verbatim>\<open>_head\<close> ends, and with \<open>as\<close> the nodes it meets,
  \<^item> when the list is not empty, \<^verbatim>\<open>_head\<close> and \<^verbatim>\<open>_tail\<close> are nodes,
    \<^verbatim>\<open>_head.prev\<close> is \<^verbatim>\<open>None\<close> and \<^verbatim>\<open>_tail.next\<close> is \<^verbatim>\<open>None\<close>;
  \<^item> whenever a node \<open>a\<close> of the walk has \<^verbatim>\<open>a.next == b\<close>, then \<^verbatim>\<open>b.prev == a\<close>;
  \<^item> \<^verbatim>\<open>_size\<close> is the number of nodes of the walk;
  \<^item> \<^verbatim>\<open>_size == 0\<close> exactly when \<^verbatim>\<open>_head\<close> and \<^verbatim>\<open>_tail\<close> are both \<^verbatim>\<open>None\<close>;
  \<^item> \<^verbatim>\<open>_size == 1\<close> exactly when \<^verbatim>\<open>_head\<close> and \<^verbatim>\<open>_tail\<close> are the same node.
\<close>

definition rep_invariant :: "'a List_t \<Rightarrow> bool" where
  "rep_invariant l \<longleftrightarrow>
     (\<exists>as. walk (nodes l) (head l) = Some as \<and>
        (\<not> List_empty l \<longrightarrow>
           (\<exists>h t. head l = Some h \<and> tail l = Some t \<and>
                  prev (nodes l ! h) = None \<and> nxt (nodes l ! t) = None)) \<and>
        (\<forall>a\<in>set as. \<forall>b. nxt (nodes l ! a) = Some b \<longrightarrow> prev (nodes l ! b) = Some a) \<and>
        size_f l = int (length as) \<and>
        (size_f l = 0 \<longleftrightarrow> head l = None \<and> tail l = None) \<and>
        (size_f l = 1 \<longleftrightarrow> (\<exists>a. head l = Some a \<and> tail l = Some a)))"

section \<open>The priority queue (class PriorityQueue)\<close>

subsection \<open>Python values and their order\<close>

text \<open>
  The queue compares its entries with Python's \<^verbatim>\<open><\<close>. The values modelled are
  integers, strings and pairs (the tuple \<^verbatim>\<open>(value, -1)\<close> that \<^verbatim>\<open>push\<close> builds is a
  pair). \<^verbatim>\<open>isinstance(value, (int, float))\<close> holds of the integers; floating point
  numbers are not modelled. \<^verbatim>\<open><\<close> on two integers or two strings is their order
  (strings by code point, a proper prefix first); on two tuples it is decided at the
  first position where the tuples differ under \<^verbatim>\<open>==\<close>; between values of different
  types it raises \<^verbatim>\<open>TypeError\<close>, here \<open>None\<close>.
\<close>

datatype pyval = VInt int | VStr string | VTuple pyval pyval

fun py_lt :: "pyval \<Rightarrow> pyval \<Rightarrow> bool option" where
  "py_lt (VInt a) (VInt b) = Some (a < b)"
| "py_lt (VStr a) (VStr b) = Some (a < b)"
| "py_lt (VTuple a1 a2) (VTuple b1 b2) =
     (if a1 \<noteq> b1 then py_lt a1 b1 else if a2 \<noteq> b2 then py_lt a2 b2 else Some False)"
| "py_lt _ _ = None"

fun is_number :: "pyval \<Rightarrow> bool" where
  "is_number (VInt i) = True"
| "is_number _ = False"

fun py_neg :: "pyval \<Rightarrow> pyval" where
  "py_neg (VInt i) = VInt (- i)"
| "py_neg v = v"

subsection \<open>The library module heapq\<close>

text \<open>
  \<^verbatim>\<open>heapq\<close> belongs to Python's standard library. \<open>heappush\<close>, \<open>heappop\<close>,
  \<open>siftdown\<close> and \<open>siftup\<close> follow the library's \<^verbatim>\<open>heappush\<close>, \<^verbatim>\<open>heappop\<close>,
  \<^verbatim>\<open>_siftdown\<close> and \<^verbatim>\<open>_siftup\<close> statement by statement; the two \<^verbatim>\<open>while\<close> loops are
  the functions \<open>siftdown_loop\<close> and \<open>siftup_loop\<close>. A comparison that raises ends
  the call with the heap as the statements before it left it. In \<open>siftup_loop\<close>,
  \<^verbatim>\<open>childpos\<close> is \<^verbatim>\<open>2*pos + 1\<close> at every test of the loop. Every index read is inside
  the list: \<^verbatim>\<open>heappush\<close> starts at the last position, \<^verbatim>\<open>heappop\<close> at the root of a
  non-empty list, and the loops move to a parent or to a child below \<^verbatim>\<open>endpos\<close>.
  The interpreter may run the library's C version of these functions, which
  exchanges two entries where the Python text copies one; the answers are the same,
  and only the list that a call leaves behind when a comparison raises differs.
\<close>

function siftdown_loop ::
  "pyval list \<Rightarrow> pyval \<Rightarrow> nat \<Rightarrow> nat \<Rightarrow> (error + nat) \<times> pyval list" where
  "siftdown_loop heap newitem startpos pos =
     (if pos > startpos then
        (let parentpos = (pos - 1) div 2;
             parent = heap ! parentpos
         in case py_lt newitem parent of
              None \<Rightarrow> (Inl TypeError, heap)
            | Some True \<Rightarrow> siftdown_loop (heap[pos := parent]) newitem startpos parentpos
            | Some False \<Rightarrow> (Inr pos, heap))
      else (Inr pos, heap))"
  by pat_completeness auto
termination
  by (relation "measure (\<lambda>(heap, newitem, startpos, pos). pos)") auto

declare siftdown_loop.simps [simp del]

definition siftdown :: "pyval list \<Rightarrow> nat \<Rightarrow> nat \<Rightarrow> (error + unit) \<times> pyval list" where
  "siftdown heap startpos pos =
     (let newitem = heap ! pos in
      case siftdown_loop heap newitem startpos pos of
        (Inl e, heap') \<Rightarrow> (Inl e, heap')
      | (Inr pos', heap') \<Rightarrow> (Inr (), heap'[pos' := newitem]))"

function siftup_loop :: "pyval list \<Rightarrow> nat \<Rightarrow> nat \<Rightarrow> (error + nat) \<times> pyval list" where
  "siftup_loop heap endpos pos =
     (let childpos = 2 * pos + 1 in
      if childpos < endpos then
        (let rightpos = childpos + 1 in
         case (if rightpos < endpos
               then map_option Not (py_lt (heap ! childpos) (heap ! rightpos))
               else Some False) of
           None \<Rightarrow> (Inl TypeError, heap)
         | Some take_right \<Rightarrow>
             (let childpos' = (if take_right then rightpos else childpos)
              in siftup_loop (heap[pos := heap ! childpos']) endpos childpos'))
      else (Inr pos, heap))"
  by pat_completeness auto
termination
  by (relation "measure (\<lambda>(heap, endpos, pos). endpos - pos)") (auto split: if_splits)

declare siftup_loop.simps [simp del]

definition siftup :: "pyval list \<Rightarrow> nat \<Rightarrow> (error + unit) \<times> pyval list" where
  "siftup heap pos =
     (let endpos = length heap;
          startpos = pos;
          newitem = heap ! pos
      in case siftup_loop heap endpos pos of
           (Inl e, heap') \<Rightarrow> (Inl e, heap')
         | (Inr pos', heap') \<Rightarrow> siftdown (heap'[pos' := newitem]) startpos pos')"

definition heappush :: "pyval list \<Rightarrow> pyval \<Rightarrow> (error + unit) \<times> pyval list" where
  "heappush heap item = (let heap1 = heap @ [item] in siftdown heap1 0 (length heap1 - 1))"

definition heappop :: "pyval list \<Rightarrow> (error + pyval) \<times> pyval list" where
  "heappop heap =
     (if heap = [] then (Inl IndexError, heap)
      else (let lastelt = last heap;
                heap1 = butlast heap
            in if heap1 \<noteq> [] then
                 (let returnitem = heap1 ! 0 in
                  case siftup (heap1[0 := lastelt]) 0 of
                    (Inl e, heap2) \<Rightarrow> (Inl e, heap2)
                  | (Inr u, heap2) \<Rightarrow> (Inr returnitem, heap2))
               else (Inr lastelt, heap1)))"

subsection \<open>The methods\<close>

text \<open>
  The fields are \<^verbatim>\<open>_data\<close> (the heap), \<^verbatim>\<open>_reverse\<close> (set when no comparator was
  given) and \<^verbatim>\<open>_compare\<close>. The source stores the comparator and never calls it.
\<close>

record PriorityQueue_t =
  heap_data :: "pyval list"
  reverse_f :: bool
  compare_f :: "(pyval \<Rightarrow> pyval \<Rightarrow> bool) option"

definition PriorityQueue_size :: "PriorityQueue_t \<Rightarrow> int" where
  "PriorityQueue_size q = int (length (heap_data q))"

definition PriorityQueue_empty :: "PriorityQueue_t \<Rightarrow> bool" where
  "PriorityQueue_empty q \<longleftrightarrow> length (heap_data q) = 0"

definition PriorityQueue_push ::
  "PriorityQueue_t \<Rightarrow> pyval \<Rightarrow> (error + unit) \<times> PriorityQueue_t" where
  "PriorityQueue_push q v =
     (if reverse_f q
      then (case heappush (heap_data q)
                   (if is_number v then py_neg v else VTuple v (VInt (- 1))) of
              (r, heap') \<Rightarrow> (r, q\<lparr>heap_data := heap'\<rparr>))
      else (case heappush (heap_data q) v of
              (r, heap') \<Rightarrow> (r, q\<lparr>heap_data := heap'\<rparr>)))"

definition PriorityQueue_pop :: "PriorityQueue_t \<Rightarrow> (error + pyval) \<times> PriorityQueue_t" where
  "PriorityQueue_pop q =
     (if PriorityQueue_empty q then (Inl IndexError, q)
      else (case heappop (heap_data q) of
              (Inl e, heap') \<Rightarrow> (Inl e, q\<lparr>heap_data := heap'\<rparr>)
            | (Inr v, heap') \<Rightarrow>
                (Inr (if reverse_f q \<and> is_number v then py_neg v else v),
                 q\<lparr>heap_data := heap'\<rparr>)))"

definition PriorityQueue_top :: "PriorityQueue_t \<Rightarrow> (error + pyval) \<times> PriorityQueue_t" where
  "PriorityQueue_top q =
     (if PriorityQueue_empty q then (Inl IndexError, q)
      else (let v = heap_data q ! 0 in
            (Inr (if reverse_f q \<and> is_number v then py_neg v else v), q)))"

definition PriorityQueue_clear :: "PriorityQueue_t \<Rightarrow> (error + unit) \<times> PriorityQueue_t" where
  "PriorityQueue_clear q = (Inr (), q\<lparr>heap_data := []\<rparr>)"

text \<open>
  \<open>push_all\<close> is a sequence of \<^verbatim>\<open>push\<close> calls, as the constructor makes for its
  initial elements; an exception ends it.
\<close>

fun push_all :: "PriorityQueue_t \<Rightarrow> pyval list \<Rightarrow> (error + unit) \<times> PriorityQueue_t" where
  "push_all q [] = (Inr (), q)"
| "push_all q (x # xs) =
     (case PriorityQueue_push q x of
        (Inl e, q') \<Rightarrow> (Inl e, q')
      | (Inr u, q') \<Rightarrow> push_all q' xs)"

definition PriorityQueue_init ::
  "pyval list option \<Rightarrow> (pyval \<Rightarrow> pyval \<Rightarrow> bool) option \<Rightarrow>
   (error + unit) \<times> PriorityQueue_t" where
  "PriorityQueue_init initial_elements compare =
     (let q = \<lparr>heap_data = [], reverse_f = (compare = None), compare_f = compare\<rparr> in
      case initial_elements of
        None \<Rightarrow> (Inr (), q)
      | Some xs \<Rightarrow> push_all q xs)"

text \<open>
  A client that calls \<^verbatim>\<open>pop\<close> \<open>n\<close> times and collects the answers; an exception
  ends the sequence. \<open>pop_until_empty\<close> pops as many times as the queue has entries.
\<close>

fun pop_times :: "nat \<Rightarrow> PriorityQueue_t \<Rightarrow> (error + pyval list) \<times> PriorityQueue_t" where
  "pop_times 0 q = (Inr [], q)"
| "pop_times (Suc n) q =
     (case PriorityQueue_pop q of
        (Inl e, q') \<Rightarrow> (Inl e, q')
      | (Inr v, q') \<Rightarrow>
          (case pop_times n q' of
             (Inl e, q'') \<Rightarrow> (Inl e, q'')
           | (Inr vs, q'') \<Rightarrow> (Inr (v # vs), q'')))"

definition pop_until_empty :: "PriorityQueue_t \<Rightarrow> (error + pyval list) \<times> PriorityQueue_t" where
  "pop_until_empty q = pop_times (length (heap_data q)) q"

text \<open>A comparator a client may pass: the greater value has the higher priority.\<close>

definition greater_first :: "pyval \<Rightarrow> pyval \<Rightarrow> bool" where
  "greater_first a b \<longleftrightarrow> py_lt b a = Some True"

subsection \<open>Element types\<close>

text \<open>
  \<^verbatim>\<open>PriorityQueue\<close> is generic in its element type \<^verbatim>\<open>T\<close>. \<open>type_of\<close> is the type of a
  value. A default-ordered queue stores an integer negated and any other element \<open>v\<close>
  as the tuple \<^verbatim>\<open>(v, -1)\<close>; a queue with a comparator stores the element itself:
  \<open>entry_type\<close> is the type of the stored entry, and \<open>holds q t\<close> says that \<open>q\<close> is a
  queue of elements of type \<open>t\<close>.
\<close>

datatype pytype = TInt | TStr | TTuple pytype pytype

fun type_of :: "pyval \<Rightarrow> pytype" where
  "type_of (VInt i) = TInt"
| "type_of (VStr s) = TStr"
| "type_of (VTuple a b) = TTuple (type_of a) (type_of b)"

definition all_of_type :: "pytype \<Rightarrow> pyval list \<Rightarrow> bool" where
  "all_of_type t xs \<longleftrightarrow> list_all (\<lambda>x. type_of x = t) xs"

definition entry_type :: "bool \<Rightarrow> pytype \<Rightarrow> pytype" where
  "entry_type reversed t = (if reversed \<and> t \<noteq> TInt then TTuple t TInt else t)"

definition holds :: "PriorityQueue_t \<Rightarrow> pytype \<Rightarrow> bool" where
  "holds q t \<longleftrightarrow> all_of_type (entry_type (reverse_f q) t) (heap_data q)"

subsection \<open>Heap order\<close>

text \<open>
  \<open>py_le a b\<close>: \<^verbatim>\<open>b < a\<close> is false, which on values of one type says that \<open>a\<close> is
  at most \<open>b\<close>. A list is a heap when no entry is less than its parent, the entry
  at \<^verbatim>\<open>(i - 1) >> 1\<close>. During a sift the position \<open>pos\<close> is a hole: \<open>heap_but h pos\<close>
  says that the heap order holds between all entries other than the hole, the
  children of the hole being compared with its parent; \<open>below x h pos\<close> says that
  \<open>x\<close> is at most the children of the hole, so that it can be put there.
\<close>

definition py_le :: "pyval \<Rightarrow> pyval \<Rightarrow> bool" where
  "py_le a b \<longleftrightarrow> py_lt b a = Some False"

definition is_heap :: "pyval list \<Rightarrow> bool" where
  "is_heap h \<longleftrightarrow> (\<forall>i<length h. 0 < i \<longrightarrow> py_le (h ! ((i - 1) div 2)) (h ! i))"

definition heap_but :: "pyval list \<Rightarrow> nat \<Rightarrow> bool" where
  "heap_but h pos \<longleftrightarrow>
     (\<forall>i<length h. 0 < i \<and> i \<noteq> pos \<and> (i - 1) div 2 \<noteq> pos \<longrightarrow>
        py_le (h ! ((i - 1) div 2)) (h ! i)) \<and>
     (\<forall>c<length h. 0 < pos \<and> 0 < c \<and> (c - 1) div 2 = pos \<longrightarrow>
        py_le (h ! ((pos - 1) div 2)) (h ! c))"

definition below :: "pyval \<Rightarrow> pyval list \<Rightarrow> nat \<Rightarrow> bool" where
  "below x h pos \<longleftrightarrow> (\<forall>c<length h. 0 < c \<and> (c - 1) div 2 = pos \<longrightarrow> py_le x (h ! c))"

text \<open>
  The entry that \<^verbatim>\<open>push\<close> hands to \<^verbatim>\<open>heappush\<close> for an element, and the answer that
  \<^verbatim>\<open>pop\<close> and \<^verbatim>\<open>top\<close> make of an entry.
\<close>

definition entry_of :: "bool \<Rightarrow> pyval \<Rightarrow> pyval" where
  "entry_of reversed v =
     (if reversed then (if is_number v then py_neg v else VTuple v (VInt (- 1))) else v)"

definition answer_of :: "bool \<Rightarrow> pyval \<Rightarrow> pyval" where
  "answer_of reversed e = (if reversed \<and> is_number e then py_neg e else e)"

section \<open>Properties of the list\<close>

subsection \<open>Linked segments\<close>

lemma dl_seg_bound: "dl_seg st p as q \<Longrightarrow> a \<in> set as \<Longrightarrow> a < length st"
  by (induction as arbitrary: p) auto

lemma dl_seg_alloc: "dl_seg st p as q \<Longrightarrow> dl_seg (st @ [n]) p as q"
  by (induction as arbitrary: p) (auto simp: nth_append)

lemma dl_seg_update: "a \<notin> set as \<Longrightarrow> dl_seg (st[a := n]) p as q = dl_seg st p as q"
  by (induction as arbitrary: p) auto

lemma dl_seg_set_prev:
  "dl_seg st p (a # as) q \<Longrightarrow> a \<notin> set as \<Longrightarrow> dl_seg (set_prev st a p') p' (a # as) q"
  by (auto simp: set_prev_def dl_seg_update)

lemma dl_seg_snoc:
  "dl_seg st p (as @ [t]) q \<longleftrightarrow>
     dl_seg st p as (Some t) \<and> t < length st \<and> nxt (st ! t) = q \<and>
     prev (st ! t) = (if as = [] then p else Some (last as))"
  by (induction as arbitrary: p) (auto split: list.splits)

lemma dl_seg_set_next:
  "dl_seg st p as q \<Longrightarrow> as \<noteq> [] \<Longrightarrow> distinct as \<Longrightarrow> dl_seg (set_next st (last as) q') p as q'"
proof (induction as arbitrary: p)
  case Nil then show ?case by simp
next
  case (Cons a as)
  show ?case
  proof (cases as)
    case Nil
    with Cons.prems show ?thesis by (simp add: set_next_def)
  next
    case (Cons b bs)
    then have "last as \<in> set as" by simp
    with Cons.prems have ne: "last as \<noteq> a" by auto
    from Cons.prems \<open>as = b # bs\<close> have "dl_seg (set_next st (last as) q') (Some a) as q'"
      by (intro Cons.IH) auto
    with Cons.prems ne \<open>as = b # bs\<close> show ?thesis
      by (simp add: set_next_def)
  qed
qed

lemma vals_alloc: "\<forall>a\<in>set as. a < length st \<Longrightarrow> vals (st @ [n]) as = vals st as"
  by (simp add: vals_def nth_append)

lemma data_set_next: "data (set_next st a v ! x) = data (st ! x)"
  by (cases "a < length st"; cases "x = a") (simp_all add: set_next_def not_less list_update_beyond)

lemma data_set_prev: "data (set_prev st a v ! x) = data (st ! x)"
  by (cases "a < length st"; cases "x = a") (simp_all add: set_prev_def not_less list_update_beyond)

lemma vals_set_next: "vals (set_next st a v) as = vals st as"
  by (simp add: vals_def data_set_next)

lemma vals_set_prev: "vals (set_prev st a v) as = vals st as"
  by (simp add: vals_def data_set_prev)

subsection \<open>The methods on a represented list\<close>

lemma rep_bound: "rep l as \<Longrightarrow> a \<in> set as \<Longrightarrow> a < length (nodes l)"
  by (auto simp: rep_def dest: dl_seg_bound)

lemma rep_fresh: "rep l as \<Longrightarrow> length (nodes l) \<notin> set as"
  by (auto dest: rep_bound)

lemma dl_seg_set_next_other: "a \<notin> set as \<Longrightarrow> dl_seg (set_next st a v) p as q = dl_seg st p as q"
  by (simp add: set_next_def dl_seg_update)

lemma dl_seg_set_prev_other: "a \<notin> set as \<Longrightarrow> dl_seg (set_prev st a v) p as q = dl_seg st p as q"
  by (simp add: set_prev_def dl_seg_update)

lemma push_front_rep:
  assumes "rep l as"
  shows "fst (List_push_front l v) = Inr ()"
    and "rep (snd (List_push_front l v)) (length (nodes l) # as)"
    and "vals (nodes (snd (List_push_front l v))) (length (nodes l) # as) = v # vals (nodes l) as"
proof -
  let ?n = "length (nodes l)"
  let ?st = "nodes l @ [ListNode_init v]"
  have fresh: "?n \<notin> set as" using assms by (rule rep_fresh)
  have seg: "dl_seg ?st None as None"
    using assms by (simp add: rep_def dl_seg_alloc)
  have bnd: "\<forall>a\<in>set as. a < ?n" using assms by (auto dest: rep_bound)
  show "fst (List_push_front l v) = Inr ()"
    using assms
    by (cases as) (simp_all add: List_push_front_def List_empty_def rep_def first_ref_def Let_def)
  show "rep (snd (List_push_front l v)) (?n # as)"
  proof (cases as)
    case Nil
    with assms show ?thesis
      by (simp add: List_push_front_def List_empty_def rep_def first_ref_def last_ref_def
          Let_def ListNode_init_def)
  next
    case (Cons h r)
    from assms Cons have hr: "h \<notin> set r" "h < ?n" "h \<noteq> ?n"
      by (auto simp: rep_def dest: dl_seg_bound)
    have "dl_seg (set_prev (set_next ?st ?n (Some h)) h (Some ?n)) (Some ?n) (h # r) None"
    proof (rule dl_seg_set_prev)
      show "dl_seg (set_next ?st ?n (Some h)) None (h # r) None"
        using seg dl_seg_set_next_other[OF fresh, of ?st "Some h" None None] Cons by blast
      show "h \<notin> set r" by fact
    qed
    moreover have "nxt (set_prev (set_next ?st ?n (Some h)) h (Some ?n) ! ?n) = Some h"
      "prev (set_prev (set_next ?st ?n (Some h)) h (Some ?n) ! ?n) = None"
      using hr by (simp_all add: set_prev_def set_next_def ListNode_init_def)
    ultimately show ?thesis
      using assms Cons fresh
      by (simp add: List_push_front_def List_empty_def rep_def first_ref_def last_ref_def
          Let_def set_prev_def set_next_def)
  qed
  show "vals (nodes (snd (List_push_front l v))) (?n # as) = v # vals (nodes l) as"
  proof (cases as)
    case Nil
    with assms show ?thesis
      by (simp add: List_push_front_def List_empty_def rep_def vals_def Let_def ListNode_init_def)
  next
    case (Cons h r)
    from assms Cons have hr: "h < ?n" "h \<noteq> ?n"
      by (auto simp: rep_def dest: dl_seg_bound)
    have "vals (set_prev (set_next ?st ?n (Some h)) h (Some ?n)) (?n # as) = vals ?st (?n # as)"
      by (simp only: vals_set_prev vals_set_next)
    also have "\<dots> = v # vals (nodes l) as"
      using bnd by (simp add: vals_def nth_append ListNode_init_def)
    finally show ?thesis
      using assms Cons
      by (simp add: List_push_front_def List_empty_def rep_def first_ref_def Let_def)
  qed
qed

lemma push_back_rep:
  assumes "rep l as"
  shows "fst (List_push_back l v) = Inr ()"
    and "rep (snd (List_push_back l v)) (as @ [length (nodes l)])"
    and "vals (nodes (snd (List_push_back l v))) (as @ [length (nodes l)]) = vals (nodes l) as @ [v]"
proof -
  let ?n = "length (nodes l)"
  let ?st = "nodes l @ [ListNode_init v]"
  have fresh: "?n \<notin> set as" using assms by (rule rep_fresh)
  have seg: "dl_seg ?st None as None"
    using assms by (simp add: rep_def dl_seg_alloc)
  have bnd: "\<forall>a\<in>set as. a < ?n" using assms by (auto dest: rep_bound)
  have dist: "distinct as" using assms by (simp add: rep_def)
  show "fst (List_push_back l v) = Inr ()"
    using assms
    by (cases as) (simp_all add: List_push_back_def List_empty_def rep_def last_ref_def Let_def)
  show "rep (snd (List_push_back l v)) (as @ [?n])"
  proof (cases "as = []")
    case True
    with assms show ?thesis
      by (simp add: List_push_back_def List_empty_def rep_def first_ref_def last_ref_def
          Let_def ListNode_init_def)
  next
    case False
    let ?t = "last as"
    let ?st2 = "set_prev (set_next ?st ?t (Some ?n)) ?n (Some ?t)"
    from False have tin: "?t \<in> set as" by simp
    with bnd fresh have t: "?t < ?n" "?t \<noteq> ?n" by auto
    have "dl_seg (set_next ?st ?t (Some ?n)) None as (Some ?n)"
      using seg False dist by (rule dl_seg_set_next)
    then have "dl_seg ?st2 None as (Some ?n)"
      using fresh by (simp add: dl_seg_set_prev_other)
    moreover have "nxt (?st2 ! ?n) = None" "prev (?st2 ! ?n) = Some ?t" "?n < length ?st2"
      using t by (simp_all add: set_prev_def set_next_def ListNode_init_def)
    ultimately have "dl_seg ?st2 None (as @ [?n]) None"
      using False by (simp add: dl_seg_snoc)
    then show ?thesis
      using assms False fresh
      by (simp add: List_push_back_def List_empty_def rep_def first_ref_def last_ref_def
          Let_def split: list.splits)
  qed
  show "vals (nodes (snd (List_push_back l v))) (as @ [?n]) = vals (nodes l) as @ [v]"
  proof (cases "as = []")
    case True
    with assms show ?thesis
      by (simp add: List_push_back_def List_empty_def rep_def vals_def Let_def ListNode_init_def)
  next
    case False
    let ?t = "last as"
    have "vals (set_prev (set_next ?st ?t (Some ?n)) ?n (Some ?t)) (as @ [?n]) = vals ?st (as @ [?n])"
      by (simp only: vals_set_prev vals_set_next)
    also have "\<dots> = vals (nodes l) as @ [v]"
      using bnd by (simp add: vals_def nth_append ListNode_init_def)
    finally show ?thesis
      using assms False
      by (simp add: List_push_back_def List_empty_def rep_def last_ref_def Let_def)
  qed
qed

lemma pop_front_rep:
  assumes "rep l (h # r)"
  shows "fst (List_pop_front l) = Inr (data (nodes l ! h))"
    and "rep (snd (List_pop_front l)) r"
    and "vals (nodes (snd (List_pop_front l))) r = vals (nodes l) r"
proof -
  have ne: "\<not> List_empty l" "head l = Some h"
    using assms by (simp_all add: rep_def List_empty_def first_ref_def)
  show "fst (List_pop_front l) = Inr (data (nodes l ! h))"
    using assms ne
    by (cases r) (auto simp: List_pop_front_def rep_def first_ref_def last_ref_def Let_def)
  show "rep (snd (List_pop_front l)) r"
  proof (cases r)
    case Nil
    with assms ne show ?thesis
      by (simp add: List_pop_front_def rep_def first_ref_def last_ref_def)
  next
    case (Cons b bs)
    from assms Cons have neq: "head l \<noteq> tail l"
      by (auto simp: rep_def first_ref_def last_ref_def)
    from assms Cons have nx: "nxt (nodes l ! h) = Some b" and seg: "dl_seg (nodes l) (Some h) (b # bs) None"
      and d: "b \<notin> set bs" "distinct r"
      by (simp_all add: rep_def)
    from seg d have "dl_seg (set_prev (nodes l) b None) None (b # bs) None"
      by (intro dl_seg_set_prev)
    with assms Cons ne neq nx d show ?thesis
      by (simp add: List_pop_front_def rep_def first_ref_def last_ref_def Let_def)
  qed
  show "vals (nodes (snd (List_pop_front l))) r = vals (nodes l) r"
    using assms ne
    by (cases r) (auto simp: List_pop_front_def rep_def first_ref_def last_ref_def Let_def
        data_set_prev vals_def)
qed

lemma pop_back_rep:
  assumes "rep l (r @ [t])"
  shows "fst (List_pop_back l) = Inr (data (nodes l ! t))"
    and "rep (snd (List_pop_back l)) r"
    and "vals (nodes (snd (List_pop_back l))) r = vals (nodes l) r"
proof -
  have ne: "\<not> List_empty l" "tail l = Some t"
    using assms by (simp_all add: rep_def List_empty_def last_ref_def)
  have seg: "dl_seg (nodes l) None r (Some t)" and pv: "prev (nodes l ! t) = (if r = [] then None else Some (last r))"
    and d: "distinct r" "t \<notin> set r"
    using assms by (simp_all add: rep_def dl_seg_snoc)
  have hd_l: "head l = (if r = [] then Some t else first_ref r)"
    using assms by (cases r) (simp_all add: rep_def first_ref_def)
  have neq: "r \<noteq> [] \<Longrightarrow> head l \<noteq> tail l"
    using hd_l ne d by (cases r) (auto simp: first_ref_def)
  show "fst (List_pop_back l) = Inr (data (nodes l ! t))"
    using ne pv neq hd_l
    by (cases "r = []") (auto simp: List_pop_back_def Let_def)
  show "rep (snd (List_pop_back l)) r"
  proof (cases "r = []")
    case True
    with assms ne hd_l show ?thesis
      by (simp add: List_pop_back_def rep_def first_ref_def last_ref_def)
  next
    case False
    from seg False d have "dl_seg (set_next (nodes l) (last r) None) None r None"
      by (intro dl_seg_set_next)
    with assms False ne neq pv d hd_l show ?thesis
      by (simp add: List_pop_back_def rep_def last_ref_def Let_def)
  qed
  show "vals (nodes (snd (List_pop_back l))) r = vals (nodes l) r"
    using ne pv neq hd_l
    by (cases "r = []") (auto simp: List_pop_back_def Let_def data_set_next vals_def)
qed

subsection \<open>Simulation by the reference deque\<close>

lemma front_rep:
  assumes "rep l as"
  shows "List_front l = (case as of [] \<Rightarrow> (Inl IndexError, l) | a # _ \<Rightarrow> (Inr (data (nodes l ! a)), l))"
  using assms by (cases as) (simp_all add: List_front_def List_empty_def rep_def first_ref_def)

lemma back_rep:
  assumes "rep l as"
  shows "List_back l = (if as = [] then (Inl IndexError, l) else (Inr (data (nodes l ! last as)), l))"
  using assms by (simp add: List_back_def List_empty_def rep_def last_ref_def)

lemma clear_rep: "rep (snd (List_clear l)) []"
  by (simp add: List_clear_def rep_def first_ref_def last_ref_def)

lemma pop_front_empty: "rep l [] \<Longrightarrow> List_pop_front l = (Inl IndexError, l)"
  by (simp add: List_pop_front_def List_empty_def rep_def)

lemma pop_back_empty: "rep l [] \<Longrightarrow> List_pop_back l = (Inl IndexError, l)"
  by (simp add: List_pop_back_def List_empty_def rep_def)

lemma call_models:
  assumes "models l xs"
  shows "fst (List_call l c) = fst (deque_call xs c) \<and>
         models (snd (List_call l c)) (snd (deque_call xs c))"
proof -
  from assms obtain as where r: "rep l as" and v: "vals (nodes l) as = xs"
    by (auto simp: models_def)
  show ?thesis
  proof (cases c)
    case (Push_front x)
    from push_front_rep[OF r, of x] v show ?thesis
      by (cases "List_push_front l x") (auto simp: Push_front models_def returns_None_def)
  next
    case (Push_back x)
    from push_back_rep[OF r, of x] v show ?thesis
      by (cases "List_push_back l x") (auto simp: Push_back models_def returns_None_def)
  next
    case Pop_front
    show ?thesis
    proof (cases as)
      case Nil
      with r v pop_front_empty[of l] show ?thesis
        by (auto simp: Pop_front models_def returns_value_def vals_def)
    next
      case (Cons h t)
      from pop_front_rep[of l h t] r v Cons show ?thesis
        by (cases "List_pop_front l") (auto simp: Pop_front models_def returns_value_def vals_def)
    qed
  next
    case Pop_back
    show ?thesis
    proof (cases as rule: rev_cases)
      case Nil
      with r v pop_back_empty[of l] show ?thesis
        by (auto simp: Pop_back models_def returns_value_def vals_def)
    next
      case (snoc t b)
      from pop_back_rep[of l t b] r v snoc show ?thesis
        by (cases "List_pop_back l") (auto simp: Pop_back models_def returns_value_def vals_def)
    qed
  next
    case Front
    from front_rep[OF r] r v show ?thesis
      by (cases as) (auto simp: Front models_def returns_value_def vals_def)
  next
    case Back
    from back_rep[OF r] r v show ?thesis
      by (cases as rule: rev_cases) (auto simp: Back models_def returns_value_def vals_def)
  next
    case Clear
    from clear_rep[of l] show ?thesis
      by (auto simp: Clear models_def returns_None_def vals_def List_clear_def)
  qed
qed

lemma models_size: "models l xs \<Longrightarrow> List_size l = int (length xs)"
  by (auto simp: models_def rep_def vals_def List_size_def)

lemma after_models: "models l xs \<Longrightarrow> models (List_after l cs) (deque_after xs cs)"
  by (induction cs arbitrary: l xs) (auto dest: call_models)

lemma trace_models: "models l xs \<Longrightarrow> List_trace l cs = deque_trace xs cs"
proof (induction cs arbitrary: l xs)
  case Nil
  then show ?case by simp
next
  case (Cons c cs)
  from call_models[OF Cons.prems, of c]
  have f: "fst (List_call l c) = fst (deque_call xs c)"
    and m: "models (snd (List_call l c)) (snd (deque_call xs c))" by auto
  from Cons.IH[OF m] models_size[OF m] f show ?case
    by (cases "List_call l c"; cases "deque_call xs c") auto
qed

lemma push_back_all_models:
  "models l ys \<Longrightarrow> fst (push_back_all l xs) = Inr () \<and> models (snd (push_back_all l xs)) (ys @ xs)"
proof (induction xs arbitrary: l ys)
  case Nil
  then show ?case by simp
next
  case (Cons x xs)
  from call_models[OF Cons.prems, of "Push_back x"]
  have f: "fst (List_push_back l x) = Inr ()" and m: "models (snd (List_push_back l x)) (ys @ [x])"
    by (auto simp: returns_None_def split: prod.splits sum.splits)
  from Cons.IH[OF m] f show ?case
    by (cases "List_push_back l x") auto
qed

lemma init_models:
  "fst (List_init i) = Inr () \<and> models (snd (List_init i)) (initial_deque i)"
proof -
  have "models \<lparr>nodes = [], head = None, tail = None, size_f = 0\<rparr> ([] :: 'a list)"
    by (simp add: models_def rep_def vals_def first_ref_def last_ref_def)
  from push_back_all_models[OF this] show ?thesis
    by (cases i) (auto simp: List_init_def initial_deque_def models_def rep_def vals_def first_ref_def last_ref_def)
qed

lemma reached_models: "models (reached i cs) (deque_after (initial_deque i) cs)"
  unfolding reached_def using init_models after_models by blast

lemma iter_loop_seg:
  "dl_seg st p as None \<Longrightarrow> iter_loop st (first_ref as) = Some (vals st as)"
proof (induction as arbitrary: p)
  case Nil
  then show ?case by (subst iter_loop.simps) (simp add: first_ref_def vals_def)
next
  case (Cons a as)
  from Cons.prems have "iter_loop st (first_ref as) = Some (vals st as)"
    by (intro Cons.IH[of "Some a"]) simp
  moreover from Cons.prems have "nxt (st ! a) = first_ref as"
    by (simp add: first_ref_def)
  ultimately show ?case
    by (subst iter_loop.simps) (simp add: first_ref_def vals_def)
qed

lemma iter_models: "models l xs \<Longrightarrow> List_iter l = Some xs"
  by (auto simp: models_def rep_def List_iter_def dest: iter_loop_seg)

subsection \<open>The representation invariant\<close>

lemma walk_seg: "dl_seg st p as None \<Longrightarrow> walk st (first_ref as) = Some as"
proof (induction as arbitrary: p)
  case Nil
  then show ?case by (subst walk.simps) (simp add: first_ref_def)
next
  case (Cons a as)
  from Cons.prems have "walk st (first_ref as) = Some as"
    by (intro Cons.IH[of "Some a"]) simp
  moreover from Cons.prems have "nxt (st ! a) = first_ref as"
    by (simp add: first_ref_def)
  ultimately show ?case
    by (subst walk.simps) (simp add: first_ref_def)
qed

lemma dl_seg_back_link:
  "dl_seg st p as None \<Longrightarrow> a \<in> set as \<Longrightarrow> nxt (st ! a) = Some b \<Longrightarrow> prev (st ! b) = Some a"
proof (induction as arbitrary: p)
  case Nil
  then show ?case by simp
next
  case (Cons c cs)
  show ?case
  proof (cases "a = c")
    case True
    with Cons.prems obtain ds where "cs = b # ds"
      by (cases cs) simp_all
    with Cons.prems True show ?thesis by simp
  next
    case False
    with Cons.prems have "dl_seg st (Some c) cs None" "a \<in> set cs" by simp_all
    then show ?thesis using Cons.prems(3) by (rule Cons.IH)
  qed
qed

lemma dl_seg_last_next: "dl_seg st p as q \<Longrightarrow> as \<noteq> [] \<Longrightarrow> nxt (st ! last as) = q"
  by (induction as arbitrary: p) (auto split: list.splits)

lemma distinct_ends: "distinct as \<Longrightarrow> as \<noteq> [] \<Longrightarrow> hd as = last as \<Longrightarrow> length as = 1"
  by (cases as) (auto split: if_splits)

lemma rep_rep_invariant:
  assumes "rep l as"
  shows "rep_invariant l"
proof -
  from assms have seg: "dl_seg (nodes l) None as None" and d: "distinct as"
    and h: "head l = first_ref as" and t: "tail l = last_ref as"
    and s: "size_f l = int (length as)"
    by (simp_all add: rep_def)
  have w: "walk (nodes l) (head l) = Some as"
    using seg h by (simp add: walk_seg)
  have ends: "\<not> List_empty l \<longrightarrow>
           (\<exists>h t. head l = Some h \<and> tail l = Some t \<and>
                  prev (nodes l ! h) = None \<and> nxt (nodes l ! t) = None)"
  proof
    assume "\<not> List_empty l"
    with s have ne: "as \<noteq> []" by (auto simp: List_empty_def)
    then obtain a r where as: "as = a # r" by (cases as) auto
    with seg have "prev (nodes l ! a) = None" by simp
    moreover from seg ne have "nxt (nodes l ! last as) = None" by (rule dl_seg_last_next)
    ultimately show "\<exists>h t. head l = Some h \<and> tail l = Some t \<and>
                  prev (nodes l ! h) = None \<and> nxt (nodes l ! t) = None"
      using h t ne as by (simp add: first_ref_def last_ref_def)
  qed
  have links: "\<forall>a\<in>set as. \<forall>b. nxt (nodes l ! a) = Some b \<longrightarrow> prev (nodes l ! b) = Some a"
    using seg by (blast intro: dl_seg_back_link)
  have zero: "size_f l = 0 \<longleftrightarrow> head l = None \<and> tail l = None"
    using h t s by (cases as) (simp_all add: first_ref_def last_ref_def)
  have one: "size_f l = 1 \<longleftrightarrow> (\<exists>a. head l = Some a \<and> tail l = Some a)"
  proof
    assume "size_f l = 1"
    with s have "length as = 1" by simp
    then obtain a where "as = [a]" by (cases as) auto
    with h t show "\<exists>a. head l = Some a \<and> tail l = Some a"
      by (simp add: first_ref_def last_ref_def)
  next
    assume "\<exists>a. head l = Some a \<and> tail l = Some a"
    then obtain a where "head l = Some a" "tail l = Some a" by auto
    with h t have "as \<noteq> []" "hd as = last as"
      by (cases as; simp add: first_ref_def last_ref_def split: if_splits)+
    with d have "length as = 1" by (intro distinct_ends)
    with s show "size_f l = 1" by simp
  qed
  from w ends links s zero one show ?thesis
    unfolding rep_invariant_def by blast
qed

lemma reached_rep: "\<exists>as. rep (reached i cs) as"
  using reached_models[of i cs] by (auto simp: models_def)

section \<open>Properties of the priority queue\<close>

subsection \<open>Heaps of one element type\<close>

lemma py_lt_same_type: "type_of a = type_of b \<Longrightarrow> \<exists>r. py_lt a b = Some r"
  by (induction a b rule: py_lt.induct) auto

lemma all_of_type_nth: "all_of_type t xs \<Longrightarrow> i < length xs \<Longrightarrow> type_of (xs ! i) = t"
  by (simp add: all_of_type_def list_all_length)

lemma all_of_type_update:
  "all_of_type t xs \<Longrightarrow> type_of x = t \<Longrightarrow> all_of_type t (xs[i := x])"
  using set_update_subset_insert[of xs i x] by (auto simp: all_of_type_def list_all_iff)

lemma siftdown_loop_ok:
  assumes "all_of_type t heap" "type_of newitem = t" "pos < length heap"
  shows "\<exists>p heap'. siftdown_loop heap newitem startpos pos = (Inr p, heap') \<and>
           p < length heap \<and> length heap' = length heap \<and> all_of_type t heap' \<and>
           mset (heap'[p := newitem]) = mset (heap[pos := newitem])"
  using assms
proof (induction heap newitem startpos pos rule: siftdown_loop.induct)
  case (1 heap newitem startpos pos)
  show ?case
  proof (cases "pos > startpos")
    case False
    with "1.prems" show ?thesis by (subst siftdown_loop.simps) simp
  next
    case True
    let ?pp = "(pos - 1) div 2"
    from True "1.prems" have pp: "?pp < length heap" "?pp < pos" by auto
    with "1.prems" have tp: "type_of (heap ! ?pp) = t" by (simp add: all_of_type_nth)
    with "1.prems" obtain r where r: "py_lt newitem (heap ! ?pp) = Some r"
      using py_lt_same_type[of newitem "heap ! ?pp"] by auto
    show ?thesis
    proof (cases r)
      case False
      with r True "1.prems" show ?thesis by (subst siftdown_loop.simps) simp
    next
      case rt: True
      let ?h1 = "heap[pos := heap ! ?pp]"
      have "\<exists>p heap'. siftdown_loop ?h1 newitem startpos ?pp = (Inr p, heap') \<and>
           p < length ?h1 \<and> length heap' = length ?h1 \<and> all_of_type t heap' \<and>
           mset (heap'[p := newitem]) = mset (?h1[?pp := newitem])"
        using True r rt "1.prems" tp pp
        by (intro "1.IH"[OF True refl refl r]) (simp_all add: all_of_type_update)
      then obtain p heap' where res: "siftdown_loop ?h1 newitem startpos ?pp = (Inr p, heap')"
        and p: "p < length heap" "length heap' = length heap" "all_of_type t heap'"
        and m: "mset (heap'[p := newitem]) = mset (?h1[?pp := newitem])"
        by auto
      have "mset (?h1[?pp := newitem]) = mset (heap[pos := newitem])"
        using pp "1.prems"(3) by (simp add: mset_update nth_list_update)
      with res p m True r rt show ?thesis
        by (subst siftdown_loop.simps) simp
    qed
  qed
qed

lemma siftdown_ok:
  assumes "all_of_type t heap" "pos < length heap"
  shows "\<exists>heap'. siftdown heap startpos pos = (Inr (), heap') \<and>
           length heap' = length heap \<and> all_of_type t heap' \<and> mset heap' = mset heap"
proof -
  from assms have "type_of (heap ! pos) = t" by (simp add: all_of_type_nth)
  from siftdown_loop_ok[OF assms(1) this assms(2), of startpos]
  obtain p heap' where res: "siftdown_loop heap (heap ! pos) startpos pos = (Inr p, heap')"
    and p: "p < length heap" "length heap' = length heap" "all_of_type t heap'"
    and m: "mset (heap'[p := heap ! pos]) = mset (heap[pos := heap ! pos])"
    by auto
  with \<open>type_of (heap ! pos) = t\<close> show ?thesis
    by (simp add: siftdown_def all_of_type_update)
qed

lemma siftup_loop_ok:
  assumes "all_of_type t heap" "pos < length heap" "endpos = length heap"
  shows "\<exists>p heap'. siftup_loop heap endpos pos = (Inr p, heap') \<and>
           p < length heap \<and> length heap' = length heap \<and> all_of_type t heap' \<and>
           (\<forall>x. mset (heap'[p := x]) = mset (heap[pos := x]))"
  using assms
proof (induction heap endpos pos rule: siftup_loop.induct)
  case (1 heap endpos pos)
  let ?c = "2 * pos + 1"
  show ?case
  proof (cases "?c < endpos")
    case False
    with "1.prems" show ?thesis by (subst siftup_loop.simps) simp
  next
    case True
    let ?r = "?c + 1"
    obtain b where b: "(if ?r < endpos
               then map_option Not (py_lt (heap ! ?c) (heap ! ?r))
               else Some False) = Some b"
    proof (cases "?r < endpos")
      case False then show ?thesis using that by simp
    next
      case rt: True
      with True "1.prems" have "type_of (heap ! ?c) = type_of (heap ! ?r)"
        by (simp add: all_of_type_nth)
      from py_lt_same_type[OF this] rt that show ?thesis by auto
    qed
    let ?c' = "if b then ?r else ?c"
    let ?h1 = "heap[pos := heap ! ?c']"
    from b True have c': "?c' < endpos" "pos < ?c'" by (auto split: if_splits)
    with "1.prems" have t1: "all_of_type t ?h1"
      by (intro all_of_type_update) (simp_all add: all_of_type_nth)
    have "\<exists>p heap'. siftup_loop ?h1 endpos ?c' = (Inr p, heap') \<and>
           p < length ?h1 \<and> length heap' = length ?h1 \<and> all_of_type t heap' \<and>
           (\<forall>x. mset (heap'[p := x]) = mset (?h1[?c' := x]))"
      using c' "1.prems" t1
      by (intro "1.IH"[OF refl True refl b refl]) simp_all
    then obtain p heap' where res: "siftup_loop ?h1 endpos ?c' = (Inr p, heap')"
      and p: "p < length heap" "length heap' = length heap" "all_of_type t heap'"
      and m: "\<forall>x. mset (heap'[p := x]) = mset (?h1[?c' := x])"
      by auto
    have "mset (?h1[?c' := x]) = mset (heap[pos := x])" for x
      using c' "1.prems" by (simp add: mset_update nth_list_update)
    moreover have "siftup_loop heap endpos pos = siftup_loop ?h1 endpos ?c'"
      using True b by (subst siftup_loop.simps) (auto simp: Let_def split: if_splits)
    ultimately show ?thesis
      using res p m by simp
  qed
qed

lemma siftup_ok:
  assumes "all_of_type t heap" "pos < length heap"
  shows "\<exists>heap'. siftup heap pos = (Inr (), heap') \<and>
           length heap' = length heap \<and> all_of_type t heap' \<and> mset heap' = mset heap"
proof -
  from siftup_loop_ok[OF assms refl]
  obtain p h1 where res: "siftup_loop heap (length heap) pos = (Inr p, h1)"
    and p: "p < length heap" "length h1 = length heap" "all_of_type t h1"
    and m: "\<forall>x. mset (h1[p := x]) = mset (heap[pos := x])"
    by auto
  let ?h2 = "h1[p := heap ! pos]"
  from assms p have "all_of_type t ?h2"
    by (intro all_of_type_update) (simp_all add: all_of_type_nth)
  moreover from p have "p < length ?h2" by simp
  ultimately obtain h3 where sd: "siftdown ?h2 pos p = (Inr (), h3)"
    and h3: "length h3 = length ?h2" "all_of_type t h3" "mset h3 = mset ?h2"
    using siftdown_ok[of t ?h2 p pos] by auto
  from m have "mset ?h2 = mset heap" by simp
  with res sd h3 p show ?thesis
    by (simp add: siftup_def)
qed

lemma heappush_ok:
  assumes "all_of_type t heap" "type_of item = t"
  shows "\<exists>heap'. heappush heap item = (Inr (), heap') \<and>
           length heap' = length heap + 1 \<and> all_of_type t heap' \<and>
           mset heap' = add_mset item (mset heap)"
proof -
  from assms have "all_of_type t (heap @ [item])"
    by (simp add: all_of_type_def)
  from siftdown_ok[OF this, of "length heap" 0] show ?thesis
    by (auto simp: heappush_def)
qed

lemma heappop_ok:
  assumes "all_of_type t heap" "heap \<noteq> []"
  shows "\<exists>heap'. heappop heap = (Inr (heap ! 0), heap') \<and>
           length heap' = length heap - 1 \<and> all_of_type t heap' \<and>
           mset heap' = mset heap - {#heap ! 0#}"
proof (cases "butlast heap = []")
  case True
  with assms(2) have "heap = [last heap]"
    by (metis append_butlast_last_id append_Nil)
  then obtain x where "heap = [x]" ..
  then show ?thesis
    by (simp add: heappop_def all_of_type_def)
next
  case False
  let ?h1 = "butlast heap"
  let ?h2 = "?h1[0 := last heap]"
  from assms have split: "heap = ?h1 @ [last heap]" by simp
  from assms have t1: "all_of_type t ?h1" "type_of (last heap) = t"
    by (auto simp: all_of_type_def list_all_iff dest: in_set_butlastD)
  then have "all_of_type t ?h2" by (intro all_of_type_update)
  from False have "length ?h1 \<noteq> 0" by (simp only: length_0_conv not_False_eq_True)
  then have len: "Suc 0 < length heap" by simp
  note \<open>all_of_type t ?h2\<close>
  moreover from len have "0 < length ?h2" by simp
  ultimately obtain h3 where su: "siftup ?h2 0 = (Inr (), h3)"
    and h3: "length h3 = length ?h2" "all_of_type t h3" "mset h3 = mset ?h2"
    using siftup_ok[of t ?h2 0] by auto
  from len have z: "?h1 ! 0 = heap ! 0"
    by (simp add: nth_butlast)
  from len have "mset ?h2 = add_mset (last heap) (mset ?h1 - {#?h1 ! 0#})"
    by (simp add: mset_update)
  also have "\<dots> = add_mset (last heap) (mset ?h1) - {#?h1 ! 0#}"
    using len by (simp add: nth_mem)
  also have "add_mset (last heap) (mset ?h1) = mset heap"
    by (subst (3) split) simp
  finally have "mset ?h2 = mset heap - {#heap ! 0#}" using z by simp
  with su h3 assms False z len show ?thesis
    by (simp add: heappop_def Let_def)
qed

lemma type_of_entry:
  "type_of (if is_number v then py_neg v else VTuple v (VInt (- 1))) = entry_type True (type_of v)"
  by (cases v) (simp_all add: entry_type_def)

lemma push_holds:
  assumes "holds q t" "type_of v = t"
  shows "fst (PriorityQueue_push q v) = Inr ()"
    and "PriorityQueue_size (snd (PriorityQueue_push q v)) = PriorityQueue_size q + 1"
    and "holds (snd (PriorityQueue_push q v)) t"
    and "reverse_f (snd (PriorityQueue_push q v)) = reverse_f q"
proof -
  let ?item = "if reverse_f q then (if is_number v then py_neg v else VTuple v (VInt (- 1))) else v"
  have "type_of ?item = entry_type (reverse_f q) t"
    using assms(2) type_of_entry[of v] by (simp add: entry_type_def)
  from heappush_ok[OF assms(1)[unfolded holds_def] this]
  obtain h where h: "heappush (heap_data q) ?item = (Inr (), h)"
    "length h = length (heap_data q) + 1" "all_of_type (entry_type (reverse_f q) t) h"
    by auto
  then show "fst (PriorityQueue_push q v) = Inr ()"
    and "PriorityQueue_size (snd (PriorityQueue_push q v)) = PriorityQueue_size q + 1"
    and "holds (snd (PriorityQueue_push q v)) t"
    and "reverse_f (snd (PriorityQueue_push q v)) = reverse_f q"
    by (auto simp: PriorityQueue_push_def PriorityQueue_size_def holds_def split: if_splits)
qed

lemma push_all_holds:
  assumes "holds q t" "all_of_type t xs"
  shows "fst (push_all q xs) = Inr () \<and>
         PriorityQueue_size (snd (push_all q xs)) = PriorityQueue_size q + int (length xs) \<and>
         holds (snd (push_all q xs)) t"
  using assms
proof (induction xs arbitrary: q)
  case Nil
  then show ?case by simp
next
  case (Cons x xs)
  from Cons.prems have x: "type_of x = t" and xs: "all_of_type t xs"
    by (simp_all add: all_of_type_def)
  from push_holds[OF Cons.prems(1) x] Cons.IH[OF _ xs, of "snd (PriorityQueue_push q x)"]
  show ?case
    by (cases "PriorityQueue_push q x") auto
qed

lemma pop_holds:
  assumes "holds q t" "\<not> PriorityQueue_empty q"
  shows "fst (PriorityQueue_pop q) = fst (PriorityQueue_top q)"
    and "holds (snd (PriorityQueue_pop q)) t"
    and "PriorityQueue_size (snd (PriorityQueue_pop q)) = PriorityQueue_size q - 1"
proof -
  from assms(2) have ne: "heap_data q \<noteq> []" by (simp add: PriorityQueue_empty_def)
  from heappop_ok[OF assms(1)[unfolded holds_def] ne]
  obtain h where h: "heappop (heap_data q) = (Inr (heap_data q ! 0), h)"
    "length h = length (heap_data q) - 1" "all_of_type (entry_type (reverse_f q) t) h"
    by auto
  with assms(2) ne show "fst (PriorityQueue_pop q) = fst (PriorityQueue_top q)"
    and "holds (snd (PriorityQueue_pop q)) t"
    and "PriorityQueue_size (snd (PriorityQueue_pop q)) = PriorityQueue_size q - 1"
    by (auto simp: PriorityQueue_pop_def PriorityQueue_top_def PriorityQueue_size_def holds_def
        Let_def of_nat_diff Suc_leI)
qed

subsection \<open>The order of Python values\<close>

lemma py_lt_irrefl: "py_lt a a = Some False"
  by (induction a) auto

lemma py_lt_asym: "py_lt a b = Some True \<Longrightarrow> py_lt b a = Some False"
  by (induction a b rule: py_lt.induct) (auto split: if_splits)

lemma py_lt_total:
  "type_of a = type_of b \<Longrightarrow> a \<noteq> b \<Longrightarrow> py_lt a b = Some True \<or> py_lt b a = Some True"
  by (induction a b rule: py_lt.induct) (auto split: if_splits)

lemma py_lt_trans:
  "py_lt a b = Some True \<Longrightarrow> py_lt b c = Some True \<Longrightarrow> py_lt a c = Some True"
proof (induction a arbitrary: b c)
  case (VInt x)
  then show ?case by (cases b; cases c) auto
next
  case (VStr x)
  then show ?case by (cases b; cases c) auto
next
  case (VTuple a1 a2)
  from VTuple.prems obtain b1 b2 where b: "b = VTuple b1 b2" by (cases b) auto
  from VTuple.prems b obtain c1 c2 where c: "c = VTuple c1 c2" by (cases c) auto
  show ?case
  proof (cases "a1 = b1")
    case ab: True
    with VTuple.prems b have a2: "a2 \<noteq> b2" "py_lt a2 b2 = Some True"
      by (auto split: if_splits)
    show ?thesis
    proof (cases "b1 = c1")
      case True
      with VTuple.prems b c have "b2 \<noteq> c2" "py_lt b2 c2 = Some True"
        by (auto split: if_splits)
      with a2 VTuple.IH(2)[of b2 c2] have "py_lt a2 c2 = Some True" by simp
      moreover from this have "a2 \<noteq> c2" using py_lt_irrefl[of a2] by auto
      ultimately show ?thesis using ab True c by simp
    next
      case False
      with VTuple.prems b c ab show ?thesis by simp
    qed
  next
    case ab: False
    with VTuple.prems b have a1: "py_lt a1 b1 = Some True" by simp
    show ?thesis
    proof (cases "b1 = c1")
      case True
      with a1 ab c show ?thesis by simp
    next
      case False
      with VTuple.prems b c have "py_lt b1 c1 = Some True" by simp
      with a1 VTuple.IH(1)[of b1 c1] have "py_lt a1 c1 = Some True" by simp
      moreover from this have "a1 \<noteq> c1" using py_lt_irrefl[of a1] by auto
      ultimately show ?thesis using c by simp
    qed
  qed
qed

lemma py_le_refl: "py_le a a"
  by (simp add: py_le_def py_lt_irrefl)

lemma py_le_total: "type_of a = type_of b \<Longrightarrow> py_le a b \<or> py_le b a"
  using py_lt_total[of a b] py_lt_asym[of a b] py_lt_asym[of b a] py_le_refl[of a]
  by (auto simp: py_le_def)

lemma not_lt_le: "type_of a = type_of b \<Longrightarrow> py_lt a b = Some False \<Longrightarrow> py_le b a"
  by (simp add: py_le_def)

lemma lt_le: "py_lt a b = Some True \<Longrightarrow> py_le a b"
  by (simp add: py_le_def py_lt_asym)

lemma py_le_trans:
  assumes "type_of a = type_of b" "type_of b = type_of c" "py_le a b" "py_le b c"
  shows "py_le a c"
proof (rule ccontr)
  assume "\<not> py_le a c"
  moreover from assms have "type_of c = type_of a" by simp
  from py_lt_same_type[OF this] obtain r where "py_lt c a = Some r" by auto
  ultimately have ca: "py_lt c a = Some True" by (cases r) (auto simp: py_le_def)
  show False
  proof (cases "a = b")
    case True
    with ca assms(4) show False by (simp add: py_le_def)
  next
    case False
    with py_lt_total[OF assms(1)] assms(3) have "py_lt a b = Some True"
      by (auto simp: py_le_def)
    with ca have "py_lt c b = Some True" by (rule py_lt_trans)
    with assms(4) show False by (simp add: py_le_def)
  qed
qed

lemma lt_le_trans:
  assumes "type_of a = type_of b" "type_of b = type_of c" "py_lt a b = Some True" "py_le b c"
  shows "py_le a c"
  using assms py_le_trans[of a b c] lt_le[of a b] by blast

subsection \<open>The sifts keep the heap order\<close>

lemma heap_butD1:
  "heap_but h pos \<Longrightarrow> i < length h \<Longrightarrow> 0 < i \<Longrightarrow> i \<noteq> pos \<Longrightarrow> (i - 1) div 2 \<noteq> pos \<Longrightarrow>
   py_le (h ! ((i - 1) div 2)) (h ! i)"
  by (simp add: heap_but_def)

lemma heap_butD2:
  "heap_but h pos \<Longrightarrow> c < length h \<Longrightarrow> 0 < pos \<Longrightarrow> 0 < c \<Longrightarrow> (c - 1) div 2 = pos \<Longrightarrow>
   py_le (h ! ((pos - 1) div 2)) (h ! c)"
  by (simp add: heap_but_def)

lemma belowD:
  "below x h pos \<Longrightarrow> c < length h \<Longrightarrow> 0 < c \<Longrightarrow> (c - 1) div 2 = pos \<Longrightarrow> py_le x (h ! c)"
  by (simp add: below_def)

lemma fill_hole:
  assumes hb: "heap_but h pos" and bl: "below x h pos" and pos: "pos < length h"
    and up: "0 < pos \<longrightarrow> py_le (h ! ((pos - 1) div 2)) x"
  shows "is_heap (h[pos := x])"
  unfolding is_heap_def
proof (intro allI impI)
  fix i assume i: "i < length (h[pos := x])" "0 < i"
  let ?p = "(i - 1) div 2"
  from i have pi: "?p < i" by auto
  show "py_le (h[pos := x] ! ?p) (h[pos := x] ! i)"
  proof (cases "i = pos")
    case True
    with i pi up pos show ?thesis by simp
  next
    case ne: False
    show ?thesis
    proof (cases "?p = pos")
      case True
      with belowD[OF bl, of i] i ne pos show ?thesis by simp
    next
      case False
      with heap_butD1[OF hb, of i] i ne show ?thesis by simp
    qed
  qed
qed

lemma siftdown_step:
  assumes ty: "all_of_type t h" "type_of x = t"
    and pos: "pos < length h" "0 < pos"
    and hb: "heap_but h pos" and bl: "below x h pos"
    and lt: "py_lt x (h ! ((pos - 1) div 2)) = Some True"
  shows "heap_but (h[pos := h ! ((pos - 1) div 2)]) ((pos - 1) div 2)"
    and "below x (h[pos := h ! ((pos - 1) div 2)]) ((pos - 1) div 2)"
proof -
  let ?pp = "(pos - 1) div 2"
  let ?h1 = "h[pos := h ! ?pp]"
  from pos have pp: "?pp < pos" "?pp < length h" by auto
  have T: "\<And>i. i < length h \<Longrightarrow> type_of (h ! i) = t"
    using ty(1) by (simp add: all_of_type_nth)
  have sib: "py_le (h ! ?pp) (h ! c)" if "c < length h" "0 < c" "(c - 1) div 2 = ?pp" "c \<noteq> pos" for c
    using heap_butD1[OF hb, of c] that pp by simp
  show "heap_but ?h1 ?pp"
    unfolding heap_but_def
  proof (intro conjI allI impI)
    fix i assume i: "i < length ?h1" "0 < i \<and> i \<noteq> ?pp \<and> (i - 1) div 2 \<noteq> ?pp"
    then have ne: "i \<noteq> pos" by auto
    show "py_le (?h1 ! ((i - 1) div 2)) (?h1 ! i)"
    proof (cases "(i - 1) div 2 = pos")
      case True
      with heap_butD2[OF hb, of i] i ne pos show ?thesis by simp
    next
      case False
      with heap_butD1[OF hb, of i] i ne show ?thesis by simp
    qed
  next
    fix c assume c: "c < length ?h1" "0 < ?pp \<and> 0 < c \<and> (c - 1) div 2 = ?pp"
    from pp have gp: "(?pp - 1) div 2 \<noteq> pos" by auto
    from c pp have up: "py_le (h ! ((?pp - 1) div 2)) (h ! ?pp)"
      using heap_butD1[OF hb, of ?pp] by auto
    show "py_le (?h1 ! ((?pp - 1) div 2)) (?h1 ! c)"
    proof (cases "c = pos")
      case True
      with up gp pos show ?thesis by simp
    next
      case False
      from c have cl: "c < length h" by simp
      from sib[OF cl] c False have le: "py_le (h ! ?pp) (h ! c)" by simp
      from pp have "(?pp - 1) div 2 < length h" by simp
      then have t1: "type_of (h ! ((?pp - 1) div 2)) = type_of (h ! ?pp)"
        using T[of "(?pp - 1) div 2"] T[of ?pp] pp(2) by simp
      have t2: "type_of (h ! ?pp) = type_of (h ! c)"
        using T[of c] T[of ?pp] pp(2) cl by simp
      from py_le_trans[OF t1 t2 up le] have "py_le (h ! ((?pp - 1) div 2)) (h ! c)" .
      with False gp show ?thesis by simp
    qed
  qed
  show "below x ?h1 ?pp"
    unfolding below_def
  proof (intro allI impI)
    fix c assume c: "c < length ?h1" "0 < c \<and> (c - 1) div 2 = ?pp"
    show "py_le x (?h1 ! c)"
    proof (cases "c = pos")
      case True
      with lt pos show ?thesis by (simp add: lt_le)
    next
      case False
      from c have cl: "c < length h" by simp
      from sib[OF cl] c False have le: "py_le (h ! ?pp) (h ! c)" by simp
      have t1: "type_of x = type_of (h ! ?pp)"
        using T[of ?pp] pp(2) ty(2) by simp
      have t2: "type_of (h ! ?pp) = type_of (h ! c)"
        using T[of c] T[of ?pp] pp(2) cl by simp
      from lt_le_trans[OF t1 t2 lt le] have "py_le x (h ! c)" .
      with False show ?thesis by simp
    qed
  qed
qed

lemma siftdown_loop_heap:
  assumes "all_of_type t heap" "type_of newitem = t" "pos < length heap" "startpos = 0"
    and "heap_but heap pos" "below newitem heap pos"
    and "siftdown_loop heap newitem startpos pos = (Inr p, heap')"
  shows "is_heap (heap'[p := newitem])"
  using assms
proof (induction heap newitem startpos pos rule: siftdown_loop.induct)
  case (1 heap newitem startpos pos)
  let ?pp = "(pos - 1) div 2"
  show ?case
  proof (cases "pos > startpos")
    case False
    with "1.prems" have "p = pos" "heap' = heap" "pos = 0"
      by (simp_all add: siftdown_loop.simps)
    with "1.prems" show ?thesis by (intro fill_hole) simp_all
  next
    case True
    with "1.prems" have pp: "?pp < length heap" "0 < pos" by auto
    with "1.prems" have "type_of newitem = type_of (heap ! ?pp)" by (simp add: all_of_type_nth)
    from py_lt_same_type[OF this] obtain r where r: "py_lt newitem (heap ! ?pp) = Some r" by auto
    show ?thesis
    proof (cases r)
      case False
      with r True "1.prems" have "p = pos" "heap' = heap"
        by (simp_all add: siftdown_loop.simps)
      with "1.prems" r False show ?thesis
        by (intro fill_hole) (simp_all add: py_le_def)
    next
      case rt: True
      let ?h1 = "heap[pos := heap ! ?pp]"
      from siftdown_step[OF "1.prems"(1,2,3) pp(2) "1.prems"(5,6)] r rt
      have hb: "heap_but ?h1 ?pp" and bl: "below newitem ?h1 ?pp" by simp_all
      from "1.prems" pp have ty: "all_of_type t ?h1"
        by (intro all_of_type_update) (simp_all add: all_of_type_nth)
      from "1.prems"(7) True r rt
      have res: "siftdown_loop ?h1 newitem startpos ?pp = (Inr p, heap')"
        by (subst (asm) siftdown_loop.simps) (simp add: Let_def)
      show ?thesis
        using pp "1.prems"(2,4) ty hb bl res
        by (intro "1.IH"[OF True refl refl r]) (simp_all add: rt)
    qed
  qed
qed

lemma siftup_step:
  assumes ty: "all_of_type t h"
    and pos: "pos < length h"
    and hb: "heap_but h pos"
    and c: "c < length h" "c = 2 * pos + 1 \<or> c = 2 * pos + 2"
    and small: "\<And>d. d < length h \<Longrightarrow> d = 2 * pos + 1 \<or> d = 2 * pos + 2 \<Longrightarrow> py_le (h ! c) (h ! d)"
  shows "heap_but (h[pos := h ! c]) c"
  unfolding heap_but_def
proof (intro conjI allI impI)
  let ?h1 = "h[pos := h ! c]"
  from c have pc: "(c - 1) div 2 = pos" "pos < c" "0 < c" by auto
  {
    fix i assume i: "i < length ?h1" "0 < i \<and> i \<noteq> c \<and> (i - 1) div 2 \<noteq> c"
    show "py_le (?h1 ! ((i - 1) div 2)) (?h1 ! i)"
    proof (cases "i = pos")
      case True
      with i have "(i - 1) div 2 \<noteq> pos" by auto
      with heap_butD2[OF hb c(1) _ pc(3) pc(1)] True i pos show ?thesis by simp
    next
      case ne: False
      show ?thesis
      proof (cases "(i - 1) div 2 = pos")
        case True
        with i have "i = 2 * pos + 1 \<or> i = 2 * pos + 2" by auto
        with small[of i] i True ne pos show ?thesis by simp
      next
        case False
        with heap_butD1[OF hb, of i] i ne show ?thesis by simp
      qed
    qed
  next
    fix d assume d: "d < length ?h1" "0 < c \<and> 0 < d \<and> (d - 1) div 2 = c"
    with pc have "d \<noteq> pos" "(d - 1) div 2 \<noteq> pos" by auto
    with heap_butD1[OF hb, of d] d pc pos show "py_le (?h1 ! ((c - 1) div 2)) (?h1 ! d)"
      by simp
  }
qed

lemma siftup_loop_heap:
  assumes "all_of_type t heap" "pos < length heap" "endpos = length heap"
    and "heap_but heap pos"
    and "siftup_loop heap endpos pos = (Inr p, heap')"
  shows "heap_but heap' p \<and> length heap \<le> 2 * p + 1"
  using assms
proof (induction heap endpos pos rule: siftup_loop.induct)
  case (1 heap endpos pos)
  let ?c = "2 * pos + 1"
  let ?r = "?c + 1"
  show ?case
  proof (cases "?c < endpos")
    case False
    with "1.prems" have "p = pos" "heap' = heap"
      by (simp_all add: siftup_loop.simps)
    with "1.prems" False show ?thesis by simp
  next
    case True
    have T: "\<And>i. i < length heap \<Longrightarrow> type_of (heap ! i) = t"
      using "1.prems"(1) by (simp add: all_of_type_nth)
    obtain b where b: "(if ?r < endpos
               then map_option Not (py_lt (heap ! ?c) (heap ! ?r))
               else Some False) = Some b"
    proof (cases "?r < endpos")
      case False then show ?thesis using that by simp
    next
      case rt: True
      with True "1.prems" have "type_of (heap ! ?c) = type_of (heap ! ?r)"
        by (simp add: all_of_type_nth)
      from py_lt_same_type[OF this] rt that show ?thesis by auto
    qed
    let ?c' = "if b then ?r else ?c"
    let ?h1 = "heap[pos := heap ! ?c']"
    from b True have c': "?c' < endpos" "pos < ?c'" by (auto split: if_splits)
    have step: "siftup_loop heap endpos pos = siftup_loop ?h1 endpos ?c'"
      using True b by (subst siftup_loop.simps) (auto simp: Let_def split: if_splits)
    have small: "py_le (heap ! ?c') (heap ! d)"
      if d: "d < length heap" "d = 2 * pos + 1 \<or> d = 2 * pos + 2" for d
    proof (cases "d = ?c'")
      case True
      then show ?thesis by (simp add: py_le_refl)
    next
      case False
      show ?thesis
      proof (cases b)
        case True
        with b have r: "?r < endpos" by (auto split: if_splits)
        from True False d have "d = ?c" by auto
        with True b r show ?thesis by (auto simp: py_le_def)
      next
        case nb: False
        with False d have dr: "d = ?r" by auto
        with d "1.prems"(3) have r: "?r < endpos" by simp
        with nb b dr show ?thesis by (auto simp: lt_le)
      qed
    qed
    have hb: "heap_but ?h1 ?c'"
      using "1.prems"(1,2,4) c' "1.prems"(3) small
      by (intro siftup_step[where t = t]) (auto split: if_splits)
    from c' "1.prems" have ty: "all_of_type t ?h1"
      by (intro all_of_type_update) (simp_all add: all_of_type_nth)
    from "1.prems"(5) step have res: "siftup_loop ?h1 endpos ?c' = (Inr p, heap')" by simp
    have "heap_but heap' p \<and> length ?h1 \<le> 2 * p + 1"
      using c' "1.prems"(3) ty hb res
      by (intro "1.IH"[OF refl True refl b refl]) simp_all
    then show ?thesis by simp
  qed
qed

lemma is_heap_heap_but: "is_heap h \<Longrightarrow> heap_but (h[0 := x]) 0"
  by (auto simp: is_heap_def heap_but_def)

lemma siftup_heap:
  assumes "all_of_type t heap" "0 < length heap" "heap_but heap 0"
    and "siftup heap 0 = (Inr (), heap')"
  shows "is_heap heap'"
proof -
  from siftup_loop_ok[OF assms(1,2) refl]
  obtain p h1 where res: "siftup_loop heap (length heap) 0 = (Inr p, h1)"
    and p: "p < length heap" "length h1 = length heap" "all_of_type t h1"
    by auto
  from siftup_loop_heap[OF assms(1,2) refl assms(3) res]
  have hb: "heap_but h1 p" and leaf: "length heap \<le> 2 * p + 1" by simp_all
  let ?x = "heap ! 0"
  let ?h2 = "h1[p := ?x]"
  from assms(1,2) have tx: "type_of ?x = t" by (simp add: all_of_type_nth)
  with p have ty2: "all_of_type t ?h2" by (intro all_of_type_update)
  have nochild: "\<not> (c < length h1 \<and> 0 < c \<and> (c - 1) div 2 = p)" for c
    using leaf p by auto
  have hb2: "heap_but ?h2 p"
    unfolding heap_but_def
  proof (intro conjI allI impI)
    fix i assume "i < length ?h2" "0 < i \<and> i \<noteq> p \<and> (i - 1) div 2 \<noteq> p"
    with heap_butD1[OF hb, of i] show "py_le (?h2 ! ((i - 1) div 2)) (?h2 ! i)" by simp
  next
    fix c assume "c < length ?h2" "0 < p \<and> 0 < c \<and> (c - 1) div 2 = p"
    with nochild[of c] show "py_le (?h2 ! ((p - 1) div 2)) (?h2 ! c)" by simp
  qed
  have bl2: "below ?x ?h2 p"
    unfolding below_def using nochild by auto
  from siftdown_loop_ok[OF ty2 tx, of p 0] p
  obtain p' h3 where sd: "siftdown_loop ?h2 ?x 0 p = (Inr p', h3)" by auto
  from siftdown_loop_heap[OF ty2 tx _ refl hb2 bl2 sd] p
  have "is_heap (h3[p' := ?x])" by simp
  moreover from res sd p have "siftup heap 0 = (Inr (), h3[p' := ?x])"
    by (simp add: siftup_def siftdown_def)
  ultimately show ?thesis using assms(4) by simp
qed

lemma heappush_heap:
  assumes "all_of_type t heap" "type_of item = t" "is_heap heap"
    and "heappush heap item = (Inr (), heap')"
  shows "is_heap heap'"
proof -
  let ?h1 = "heap @ [item]"
  let ?n = "length heap"
  from assms have ty: "all_of_type t ?h1" by (simp add: all_of_type_def)
  have x: "?h1 ! ?n = item" by simp
  have hb: "heap_but ?h1 ?n"
    unfolding heap_but_def
  proof (intro conjI allI impI)
    fix i assume i: "i < length ?h1" "0 < i \<and> i \<noteq> ?n \<and> (i - 1) div 2 \<noteq> ?n"
    then have "i < ?n" "(i - 1) div 2 < ?n" by auto
    with assms(3) i show "py_le (?h1 ! ((i - 1) div 2)) (?h1 ! i)"
      by (simp add: is_heap_def nth_append)
  next
    fix c assume "c < length ?h1" "0 < ?n \<and> 0 < c \<and> (c - 1) div 2 = ?n"
    then have False by auto
    then show "py_le (?h1 ! ((?n - 1) div 2)) (?h1 ! c)" ..
  qed
  have bl: "below item ?h1 ?n"
    unfolding below_def by auto
  from siftdown_loop_ok[OF ty assms(2), of ?n 0]
  obtain p h2 where sd: "siftdown_loop ?h1 item 0 ?n = (Inr p, h2)" by auto
  from siftdown_loop_heap[OF ty assms(2) _ refl hb bl sd]
  have "is_heap (h2[p := item])" by simp
  moreover from sd have "heappush heap item = (Inr (), h2[p := item])"
    by (simp add: heappush_def siftdown_def)
  ultimately show ?thesis using assms(4) by simp
qed

lemma is_heap_butlast: "is_heap h \<Longrightarrow> is_heap (butlast h)"
  by (auto simp: is_heap_def nth_butlast)

lemma heappop_heap:
  assumes "all_of_type t heap" "heap \<noteq> []" "is_heap heap"
    and "heappop heap = (Inr v, heap')"
  shows "is_heap heap'"
proof (cases "butlast heap = []")
  case True
  with assms(2,4) show ?thesis
    by (simp add: heappop_def is_heap_def)
next
  case False
  let ?h1 = "butlast heap"
  let ?h2 = "?h1[0 := last heap]"
  from assms have t1: "all_of_type t ?h1" "type_of (last heap) = t"
    by (auto simp: all_of_type_def list_all_iff dest: in_set_butlastD)
  then have ty: "all_of_type t ?h2" by (intro all_of_type_update)
  from False have "length ?h1 \<noteq> 0" by (simp only: length_0_conv not_False_eq_True)
  then have len: "0 < length ?h2" by simp
  from assms(3) have hb: "heap_but ?h2 0"
    by (intro is_heap_heap_but is_heap_butlast)
  from siftup_ok[OF ty len] obtain h3 where su: "siftup ?h2 0 = (Inr (), h3)" by auto
  from siftup_heap[OF ty len hb su] have "is_heap h3" .
  moreover from su False assms(2) have "snd (heappop heap) = h3"
    by (simp add: heappop_def Let_def)
  ultimately show ?thesis using assms(4) by simp
qed

lemma heap_root_least:
  assumes "all_of_type t h" "is_heap h" "i < length h"
  shows "py_le (h ! 0) (h ! i)"
  using assms(3)
proof (induction i rule: less_induct)
  case (less i)
  show ?case
  proof (cases "i = 0")
    case True
    then show ?thesis by (simp add: py_le_refl)
  next
    case False
    let ?p = "(i - 1) div 2"
    from False less.prems have p: "?p < i" "?p < length h" by auto
    from less.IH[OF p] have 1: "py_le (h ! 0) (h ! ?p)" .
    from assms(2) less.prems False have 2: "py_le (h ! ?p) (h ! i)"
      by (simp add: is_heap_def)
    from less.prems have "0 < length h" by (cases h) simp_all
    then have t1: "type_of (h ! 0) = type_of (h ! ?p)"
      using assms(1) p by (simp add: all_of_type_nth)
    have t2: "type_of (h ! ?p) = type_of (h ! i)"
      using assms(1) p less.prems by (simp add: all_of_type_nth)
    from py_le_trans[OF t1 t2 1 2] show ?thesis .
  qed
qed

subsection \<open>Filling and emptying a queue\<close>

lemma push_entries:
  assumes "holds q t" "type_of v = t"
  shows "mset (heap_data (snd (PriorityQueue_push q v))) =
           add_mset (entry_of (reverse_f q) v) (mset (heap_data q))"
    and "is_heap (heap_data q) \<Longrightarrow> is_heap (heap_data (snd (PriorityQueue_push q v)))"
proof -
  let ?item = "entry_of (reverse_f q) v"
  have ti: "type_of ?item = entry_type (reverse_f q) t"
    using assms(2) type_of_entry[of v] by (simp add: entry_type_def entry_of_def)
  from heappush_ok[OF assms(1)[unfolded holds_def] ti]
  obtain h where h: "heappush (heap_data q) ?item = (Inr (), h)"
    "mset h = add_mset ?item (mset (heap_data q))"
    by auto
  have d: "heap_data (snd (PriorityQueue_push q v)) = h"
    using h(1) by (auto simp: PriorityQueue_push_def entry_of_def split: if_splits)
  from d h(2) show "mset (heap_data (snd (PriorityQueue_push q v))) =
           add_mset (entry_of (reverse_f q) v) (mset (heap_data q))" by simp
  assume "is_heap (heap_data q)"
  from heappush_heap[OF assms(1)[unfolded holds_def] ti this h(1)] d
  show "is_heap (heap_data (snd (PriorityQueue_push q v)))" by simp
qed

lemma push_all_entries:
  assumes "holds q t" "all_of_type t xs" "is_heap (heap_data q)"
  shows "mset (heap_data (snd (push_all q xs))) =
           mset (heap_data q) + image_mset (entry_of (reverse_f q)) (mset xs) \<and>
         is_heap (heap_data (snd (push_all q xs))) \<and>
         holds (snd (push_all q xs)) t \<and>
         reverse_f (snd (push_all q xs)) = reverse_f q"
  using assms
proof (induction xs arbitrary: q)
  case Nil
  then show ?case by simp
next
  case (Cons x xs)
  from Cons.prems have x: "type_of x = t" and xs: "all_of_type t xs"
    by (simp_all add: all_of_type_def)
  let ?q1 = "snd (PriorityQueue_push q x)"
  from push_holds[OF Cons.prems(1) x]
  have ok: "fst (PriorityQueue_push q x) = Inr ()" and h1: "holds ?q1 t"
    and r1: "reverse_f ?q1 = reverse_f q" by simp_all
  from push_entries[OF Cons.prems(1) x] Cons.prems(3)
  have m1: "mset (heap_data ?q1) = add_mset (entry_of (reverse_f q) x) (mset (heap_data q))"
    and i1: "is_heap (heap_data ?q1)" by simp_all
  from Cons.IH[OF h1 xs i1] r1 m1 ok show ?case
    by (cases "PriorityQueue_push q x") auto
qed

lemma pop_entries:
  assumes "holds q t" "heap_data q \<noteq> []" "is_heap (heap_data q)"
  shows "fst (PriorityQueue_pop q) = Inr (answer_of (reverse_f q) (heap_data q ! 0))"
    and "mset (heap_data (snd (PriorityQueue_pop q))) = mset (heap_data q) - {#heap_data q ! 0#}"
    and "is_heap (heap_data (snd (PriorityQueue_pop q)))"
    and "holds (snd (PriorityQueue_pop q)) t"
    and "reverse_f (snd (PriorityQueue_pop q)) = reverse_f q"
proof -
  from heappop_ok[OF assms(1)[unfolded holds_def] assms(2)]
  obtain h where h: "heappop (heap_data q) = (Inr (heap_data q ! 0), h)"
    "all_of_type (entry_type (reverse_f q) t) h"
    "mset h = mset (heap_data q) - {#heap_data q ! 0#}"
    by auto
  from heappop_heap[OF assms(1)[unfolded holds_def] assms(2,3) h(1)] have ih: "is_heap h" .
  from h(1) assms(2) have p: "PriorityQueue_pop q =
      (Inr (answer_of (reverse_f q) (heap_data q ! 0)), q\<lparr>heap_data := h\<rparr>)"
    by (simp add: PriorityQueue_pop_def PriorityQueue_empty_def answer_of_def)
  from p show "fst (PriorityQueue_pop q) = Inr (answer_of (reverse_f q) (heap_data q ! 0))"
    by simp
  from p h(3) show "mset (heap_data (snd (PriorityQueue_pop q))) =
      mset (heap_data q) - {#heap_data q ! 0#}" by simp
  from p ih show "is_heap (heap_data (snd (PriorityQueue_pop q)))" by simp
  from p h(2) show "holds (snd (PriorityQueue_pop q)) t" by (simp add: holds_def)
  from p show "reverse_f (snd (PriorityQueue_pop q)) = reverse_f q" by simp
qed

lemma pop_times_entries:
  assumes "holds q t" "is_heap (heap_data q)" "n \<le> length (heap_data q)"
  shows "\<exists>es. fst (pop_times n q) = Inr (map (answer_of (reverse_f q)) es) \<and>
           length es = n \<and> sorted_wrt py_le es \<and>
           mset es + mset (heap_data (snd (pop_times n q))) = mset (heap_data q)"
  using assms
proof (induction n arbitrary: q)
  case 0
  then show ?case by simp
next
  case (Suc n)
  let ?h = "heap_data q"
  let ?q1 = "snd (PriorityQueue_pop q)"
  from Suc.prems have ne: "?h \<noteq> []" by auto
  note pe = pop_entries[OF Suc.prems(1) ne Suc.prems(2)]
  from pe(2) have "size (mset (heap_data ?q1)) = size (mset ?h) - 1"
    using ne by (simp add: size_Diff_singleton)
  with Suc.prems(3) have n: "n \<le> length (heap_data ?q1)" by simp
  from Suc.IH[OF pe(4) pe(3) n] pe(5)
  obtain es where es: "fst (pop_times n ?q1) = Inr (map (answer_of (reverse_f q)) es)"
    "length es = n" "sorted_wrt py_le es"
    "mset es + mset (heap_data (snd (pop_times n ?q1))) = mset (heap_data ?q1)"
    by auto
  have ty: "all_of_type (entry_type (reverse_f q) t) ?h"
    using Suc.prems(1) by (simp add: holds_def)
  have least: "py_le (?h ! 0) e" if "e \<in> set es" for e
  proof -
    from that have "e \<in># mset es + mset (heap_data (snd (pop_times n ?q1)))" by simp
    with es(4) pe(2) have "e \<in># mset ?h - {#?h ! 0#}" by simp
    then have "e \<in> set ?h" by (auto dest: in_diffD)
    then obtain i where "i < length ?h" "?h ! i = e" by (auto simp: in_set_conv_nth)
    with heap_root_least[OF ty Suc.prems(2), of i] show ?thesis by simp
  qed
  have m: "mset (?h ! 0 # es) + mset (heap_data (snd (pop_times n ?q1))) = mset ?h"
    using es(4) pe(2) ne by simp
  have run: "pop_times (Suc n) q =
      (Inr (answer_of (reverse_f q) (?h ! 0) # map (answer_of (reverse_f q)) es),
       snd (pop_times n ?q1))"
    using pe(1) es(1)
    by (cases "PriorityQueue_pop q"; cases "pop_times n ?q1") auto
  show ?case
  proof (intro exI[of _ "?h ! 0 # es"] conjI)
    show "fst (pop_times (Suc n) q) = Inr (map (answer_of (reverse_f q)) (?h ! 0 # es))"
      using run by simp
    show "length (?h ! 0 # es) = Suc n" using es(2) by simp
    show "sorted_wrt py_le (?h ! 0 # es)" using es(3) least by simp
    show "mset (?h ! 0 # es) + mset (heap_data (snd (pop_times (Suc n) q))) = mset ?h"
      using m run by simp
  qed
qed

lemma pop_until_empty_entries:
  assumes "holds q t" "is_heap (heap_data q)"
  shows "\<exists>es. fst (pop_until_empty q) = Inr (map (answer_of (reverse_f q)) es) \<and>
           sorted_wrt py_le es \<and> mset es = mset (heap_data q)"
proof -
  from pop_times_entries[OF assms order_refl]
  obtain es where es: "fst (pop_times (length (heap_data q)) q) =
        Inr (map (answer_of (reverse_f q)) es)"
    "length es = length (heap_data q)" "sorted_wrt py_le es"
    "mset es + mset (heap_data (snd (pop_times (length (heap_data q)) q))) = mset (heap_data q)"
    by blast
  from es(4) have "size (mset es) + size (mset (heap_data (snd (pop_times (length (heap_data q)) q))))
      = size (mset (heap_data q))"
    by (metis size_union)
  with es(2) have "heap_data (snd (pop_times (length (heap_data q)) q)) = []" by simp
  with es show ?thesis by (auto simp: pop_until_empty_def)
qed

text \<open>What a queue, filled by pushes and then emptied by pops, answers.\<close>

theorem push_then_pop_all:
  assumes "all_of_type t xs"
  shows "\<exists>es. fst (pop_until_empty (snd (push_all (snd (PriorityQueue_init None compare)) xs))) =
              Inr (map (answer_of (compare = None)) es) \<and>
            sorted_wrt py_le es \<and>
            mset es = image_mset (entry_of (compare = None)) (mset xs)"
proof -
  let ?q0 = "snd (PriorityQueue_init None compare)"
  have q0: "holds ?q0 t" "is_heap (heap_data ?q0)" "heap_data ?q0 = []"
    "reverse_f ?q0 = (compare = None)"
    by (simp_all add: PriorityQueue_init_def holds_def all_of_type_def is_heap_def)
  from push_all_entries[OF q0(1) assms q0(2)] q0(3,4)
  have 1: "mset (heap_data (snd (push_all ?q0 xs))) =
             image_mset (entry_of (compare = None)) (mset xs)"
    "is_heap (heap_data (snd (push_all ?q0 xs)))" "holds (snd (push_all ?q0 xs)) t"
    "reverse_f (snd (push_all ?q0 xs)) = (compare = None)"
    by simp_all
  from pop_until_empty_entries[OF 1(3) 1(2)] 1(1,4) show ?thesis by simp
qed

lemma py_le_neg:
  "type_of a = TInt \<Longrightarrow> type_of b = TInt \<Longrightarrow> py_le (py_neg b) (py_neg a) = py_le a b"
  by (cases a; cases b) (auto simp: py_le_def)

lemma py_le_wrap: "py_le (VTuple a (VInt (- 1))) (VTuple b (VInt (- 1))) = py_le a b"
  by (auto simp: py_le_def py_lt_irrefl)

lemma sorted_wrt_map_iff:
  assumes "\<And>a b. a \<in> set xs \<Longrightarrow> b \<in> set xs \<Longrightarrow> P (f a) (f b) = Q a b"
  shows "sorted_wrt P (map f xs) = sorted_wrt Q xs"
  using assms by (induction xs) (auto simp: sorted_wrt_map)

theorem numbers_popped_greatest_first:
  assumes "all_of_type TInt xs"
  shows "\<exists>vs. fst (pop_until_empty (snd (push_all (snd (PriorityQueue_init None None)) xs))) =
              Inr vs \<and>
            sorted_wrt (\<lambda>a b. py_le b a) vs \<and> mset vs = mset xs"
proof -
  from push_then_pop_all[OF assms, of None]
  obtain es where es: "fst (pop_until_empty (snd (push_all (snd (PriorityQueue_init None None)) xs))) =
      Inr (map (answer_of True) es)" "sorted_wrt py_le es"
    "mset es = image_mset (entry_of True) (mset xs)"
    by auto
  have tx: "type_of x = TInt" if "x \<in> set xs" for x
    using assms that by (simp add: all_of_type_def list_all_iff)
  have ent: "entry_of True x = py_neg x" if "x \<in> set xs" for x
    using tx[OF that] by (cases x) (simp_all add: entry_of_def)
  have "set es = entry_of True ` set xs"
    using es(3) by (metis set_mset_mset set_image_mset)
  have te: "type_of e = TInt" if "e \<in> set es" for e
  proof -
    from that \<open>set es = entry_of True ` set xs\<close> obtain x where x: "x \<in> set xs" "e = entry_of True x"
      by auto
    from tx[OF x(1)] x(2) ent[OF x(1)] show ?thesis by (cases x) simp_all
  qed
  have ans: "answer_of True e = py_neg e" if "e \<in> set es" for e
    using te[OF that] by (cases e) (simp_all add: answer_of_def)
  have a1: "map (answer_of True) es = map py_neg es"
    using ans by simp
  have "sorted_wrt (\<lambda>a b. py_le b a) (map py_neg es) = sorted_wrt py_le es"
    using te by (intro sorted_wrt_map_iff) (simp add: py_le_neg)
  with es(2) have s: "sorted_wrt (\<lambda>a b. py_le b a) (map py_neg es)" by simp
  have "mset (map py_neg es) = image_mset py_neg (image_mset (entry_of True) (mset xs))"
    using es(3) by simp
  also have "\<dots> = image_mset (\<lambda>x. py_neg (entry_of True x)) (mset xs)"
    by (simp add: image_mset.compositionality comp_def)
  also have "\<dots> = image_mset (\<lambda>x. x) (mset xs)"
  proof (rule image_mset_cong)
    fix x assume "x \<in># mset xs"
    then have "x \<in> set xs" by simp
    from tx[OF this] ent[OF this] show "py_neg (entry_of True x) = x"
      by (cases x) simp_all
  qed
  finally have m: "mset (map py_neg es) = mset xs" by simp
  from es(1) a1 s m show ?thesis by auto
qed

theorem comparator_queue_pops_least_first:
  assumes "all_of_type t xs"
  shows "\<exists>vs. fst (pop_until_empty (snd (push_all (snd (PriorityQueue_init None (Some compare))) xs))) =
              Inr vs \<and>
            sorted_wrt py_le vs \<and> mset vs = mset xs"
proof -
  have a: "answer_of False = (\<lambda>e. e)" by (rule ext) (simp add: answer_of_def)
  have e: "entry_of False = (\<lambda>v. v)" by (rule ext) (simp add: entry_of_def)
  from push_then_pop_all[OF assms, of "Some compare"] show ?thesis
    by (simp add: a e)
qed

theorem others_popped_wrapped_least_first:
  assumes "all_of_type t xs" "t \<noteq> TInt"
  shows "\<exists>vs. fst (pop_until_empty (snd (push_all (snd (PriorityQueue_init None None)) xs))) =
              Inr (map (\<lambda>v. VTuple v (VInt (- 1))) vs) \<and>
            sorted_wrt py_le vs \<and> mset vs = mset xs"
proof -
  let ?w = "\<lambda>v. VTuple v (VInt (- 1))"
  from push_then_pop_all[OF assms(1), of None]
  obtain es where es: "fst (pop_until_empty (snd (push_all (snd (PriorityQueue_init None None)) xs))) =
      Inr (map (answer_of True) es)" "sorted_wrt py_le es"
    "mset es = image_mset (entry_of True) (mset xs)"
    by auto
  have ent: "entry_of True x = ?w x" if "x \<in> set xs" for x
  proof -
    from assms that have "type_of x \<noteq> TInt" by (auto simp: all_of_type_def list_all_iff)
    then show ?thesis by (cases x) (simp_all add: entry_of_def)
  qed
  then have "image_mset (entry_of True) (mset xs) = image_mset ?w (mset xs)"
    by (intro image_mset_cong) simp
  with es(3) have me: "mset es = image_mset ?w (mset xs)" by simp
  let ?u = "\<lambda>e. case e of VTuple v k \<Rightarrow> v | _ \<Rightarrow> e"
  define vs where "vs = map ?u es"
  have "set es = ?w ` set xs"
    using me by (metis set_mset_mset set_image_mset)
  then have "?w (?u e) = e" if "e \<in> set es" for e
    using that by auto
  then have "map ?w vs = es"
    unfolding vs_def by (simp add: map_idI)
  moreover have "mset vs = image_mset ?u (image_mset ?w (mset xs))"
    unfolding vs_def using me by simp
  then have "mset vs = mset xs"
    by (simp add: image_mset.compositionality comp_def)
  ultimately have vs: "es = map ?w vs" "mset vs = mset xs" by simp_all
  have "map (answer_of True) es = map ?w vs"
    using vs(1) by (simp add: answer_of_def)
  moreover have "sorted_wrt py_le vs"
    using es(2) vs(1) by (simp add: sorted_wrt_map py_le_wrap)
  ultimately show ?thesis using es(1) vs(2) by (intro exI[of _ vs]) simp
qed

subsection \<open>The only exception of a sift is TypeError\<close>

lemma siftdown_loop_raises:
  "siftdown_loop heap newitem startpos pos = (Inl e, heap') \<Longrightarrow> e = TypeError"
proof (induction heap newitem startpos pos rule: siftdown_loop.induct)
  case (1 heap newitem startpos pos)
  show ?case
  proof (cases "pos > startpos")
    case False
    with "1.prems" show ?thesis by (simp add: siftdown_loop.simps)
  next
    case True
    show ?thesis
    proof (cases "py_lt newitem (heap ! ((pos - 1) div 2))")
      case None
      with True "1.prems" show ?thesis by (simp add: siftdown_loop.simps)
    next
      case (Some r)
      show ?thesis
      proof (cases r)
        case False
        with Some True "1.prems" show ?thesis by (simp add: siftdown_loop.simps)
      next
        case rt: True
        from "1.prems" True Some rt
        have "siftdown_loop (heap[pos := heap ! ((pos - 1) div 2)]) newitem startpos
                ((pos - 1) div 2) = (Inl e, heap')"
          by (subst (asm) siftdown_loop.simps) (simp add: Let_def)
        with "1.IH"[OF True refl refl Some] rt show ?thesis by simp
      qed
    qed
  qed
qed

lemma siftdown_raises: "siftdown heap startpos pos = (Inl e, heap') \<Longrightarrow> e = TypeError"
  by (auto simp: siftdown_def Let_def split: prod.splits sum.splits dest: siftdown_loop_raises)

lemma siftup_loop_raises:
  "siftup_loop heap endpos pos = (Inl e, heap') \<Longrightarrow> e = TypeError"
proof (induction heap endpos pos rule: siftup_loop.induct)
  case (1 heap endpos pos)
  let ?c = "2 * pos + 1"
  let ?r = "?c + 1"
  let ?t = "if ?r < endpos then map_option Not (py_lt (heap ! ?c) (heap ! ?r)) else Some False"
  show ?case
  proof (cases "?c < endpos")
    case False
    with "1.prems" show ?thesis by (simp add: siftup_loop.simps)
  next
    case True
    show ?thesis
    proof (cases ?t)
      case None
      with True "1.prems" show ?thesis
        by (subst (asm) siftup_loop.simps) (auto simp: Let_def split: if_splits option.splits)
    next
      case (Some b)
      let ?c' = "if b then ?r else ?c"
      have "siftup_loop heap endpos pos = siftup_loop (heap[pos := heap ! ?c']) endpos ?c'"
        using True Some by (subst siftup_loop.simps) (auto simp: Let_def split: if_splits)
      with "1.prems" have "siftup_loop (heap[pos := heap ! ?c']) endpos ?c' = (Inl e, heap')"
        by simp
      with "1.IH"[OF refl True refl Some refl] show ?thesis by simp
    qed
  qed
qed

lemma siftup_raises: "siftup heap pos = (Inl e, heap') \<Longrightarrow> e = TypeError"
  by (auto simp: siftup_def Let_def split: prod.splits sum.splits
      dest: siftup_loop_raises siftdown_raises)

lemma heappop_answers:
  assumes "heap \<noteq> []"
  shows "fst (heappop heap) = Inr (heap ! 0) \<or> fst (heappop heap) = Inl TypeError"
proof (cases "butlast heap = []")
  case True
  with assms have "heap = [last heap]"
    by (metis append_butlast_last_id append_Nil)
  then obtain x where "heap = [x]" ..
  then show ?thesis by (simp add: heappop_def)
next
  case False
  then have "length (butlast heap) \<noteq> 0" by (simp only: length_0_conv not_False_eq_True)
  then have z: "butlast heap ! 0 = heap ! 0" by (simp add: nth_butlast)
  obtain r h where su: "siftup ((butlast heap)[0 := last heap]) 0 = (r, h)"
    by (cases "siftup ((butlast heap)[0 := last heap]) 0")
  show ?thesis
  proof (cases r)
    case (Inl e)
    with su siftup_raises[of _ 0 e h] have "e = TypeError" by simp
    with su Inl assms False show ?thesis by (simp add: heappop_def Let_def)
  next
    case (Inr u)
    with su assms False z show ?thesis by (simp add: heappop_def Let_def)
  qed
qed

subsection \<open>Evaluation on concrete inputs\<close>

lemma iter_loop_None: "iter_loop st None = Some []"
  by (subst iter_loop.simps) simp

lemma iter_loop_Some:
  "iter_loop st (Some a) =
     Option.bind (iter_loop st (nxt (st ! a))) (\<lambda>vs. Some (data (st ! a) # vs))"
  by (subst iter_loop.simps) simp

lemmas List_eval =
  reached_def List_init_def List_push_front_def List_push_back_def List_pop_front_def
  List_pop_back_def List_front_def List_back_def List_clear_def List_empty_def List_size_def
  List_iter_def ListNode_init_def set_next_def set_prev_def returns_None_def returns_value_def
  iter_loop_None iter_loop_Some Let_def

lemmas PriorityQueue_eval =
  PriorityQueue_init_def PriorityQueue_push_def PriorityQueue_pop_def PriorityQueue_top_def
  PriorityQueue_empty_def PriorityQueue_size_def pop_until_empty_def
  heappush_def heappop_def siftdown_def siftup_def siftdown_loop.simps siftup_loop.simps
  holds_def all_of_type_def entry_type_def greater_first_def Let_def

section \<open>The claims about the list\<close>

text \<open>
  C5. Every operation of the list keeps the representation invariant. The lists a
  client can hold are the constructor's result (with or without initial elements)
  followed by any sequence of \<^verbatim>\<open>push_front\<close>, \<^verbatim>\<open>push_back\<close>, \<^verbatim>\<open>pop_front\<close>,
  \<^verbatim>\<open>pop_back\<close>, \<^verbatim>\<open>front\<close>, \<^verbatim>\<open>back\<close> and \<^verbatim>\<open>clear\<close> calls, failed calls included.
  In each of them: when the list is not empty, \<^verbatim>\<open>_head.prev\<close> and \<^verbatim>\<open>_tail.next\<close> are
  \<^verbatim>\<open>None\<close>; every node \<open>a\<close> reached from \<^verbatim>\<open>_head\<close> with \<^verbatim>\<open>a.next == b\<close> has
  \<^verbatim>\<open>b.prev == a\<close>; \<^verbatim>\<open>_size\<close> is the number of nodes reached from \<^verbatim>\<open>_head\<close> by
  \<^verbatim>\<open>next\<close>; \<^verbatim>\<open>_size == 0\<close> exactly when \<^verbatim>\<open>_head\<close> and \<^verbatim>\<open>_tail\<close> are both \<^verbatim>\<open>None\<close>;
  and \<^verbatim>\<open>_size == 1\<close> exactly when \<^verbatim>\<open>_head\<close> and \<^verbatim>\<open>_tail\<close> are one and the same node.
\<close>

theorem List_representation_invariant: "rep_invariant (reached i cs)"
  using reached_rep[of i cs] by (auto intro: rep_rep_invariant)

theorem List_representation_invariant_witness:
  "rep_invariant (reached (Some [10, 20, 30 :: int]) [Push_front 5, Push_back 40, Pop_front, Pop_back]) \<and>
   \<not> List_empty (reached (Some [10, 20, 30 :: int]) [Push_front 5, Push_back 40, Pop_front, Pop_back]) \<and>
   List_iter (reached (Some [10, 20, 30 :: int]) [Push_front 5, Push_back 40, Pop_front, Pop_back]) = Some [10, 20, 30]"
proof (intro conjI)
  show "rep_invariant (reached (Some [10, 20, 30 :: int]) [Push_front 5, Push_back 40, Pop_front, Pop_back])"
    by (rule List_representation_invariant)
  show "\<not> List_empty (reached (Some [10, 20, 30 :: int]) [Push_front 5, Push_back 40, Pop_front, Pop_back])"
    by (simp add: List_eval)
  show "List_iter (reached (Some [10, 20, 30 :: int]) [Push_front 5, Push_back 40, Pop_front, Pop_back]) = Some [10, 20, 30]"
    by (simp add: List_eval)
qed

text \<open>
  C6. For every sequence of \<^verbatim>\<open>push_front\<close>, \<^verbatim>\<open>push_back\<close>, \<^verbatim>\<open>pop_front\<close>,
  \<^verbatim>\<open>pop_back\<close> (and \<^verbatim>\<open>front\<close>, \<^verbatim>\<open>back\<close>, \<^verbatim>\<open>clear\<close>) calls on a newly constructed list,
  every call answers as the same call on the reference deque does (the same value, the
  same error), and \<^verbatim>\<open>size()\<close> after every call is the reference's length. In
  particular \<^verbatim>\<open>push_back(10)\<close>, \<^verbatim>\<open>push_back(20)\<close>, \<^verbatim>\<open>push_front(5)\<close> on an empty list
  give \<^verbatim>\<open>front() == 5\<close>, \<^verbatim>\<open>back() == 20\<close>, \<^verbatim>\<open>size() == 3\<close>, and then \<^verbatim>\<open>pop_front()\<close>
  returns 5 and leaves \<^verbatim>\<open>size() == 2\<close>.
\<close>

theorem List_refines_deque:
  "List_trace (snd (List_init i)) cs = deque_trace (initial_deque i) cs \<and>
   List_trace (snd (List_init None))
     [Push_back 10, Push_back 20, Push_front 5, Front, Back, Pop_front] =
   [(Inr None, 1), (Inr None, 2), (Inr None, 3),
    (Inr (Some (5 :: int)), 3), (Inr (Some 20), 3), (Inr (Some 5), 2)]"
proof
  from init_models[of i] show "List_trace (snd (List_init i)) cs = deque_trace (initial_deque i) cs"
    by (intro trace_models) simp
  show "List_trace (snd (List_init None))
     [Push_back 10, Push_back 20, Push_front 5, Front, Back, Pop_front] =
   [(Inr None, 1), (Inr None, 2), (Inr None, 3),
    (Inr (Some (5 :: int)), 3), (Inr (Some 20), 3), (Inr (Some 5), 2)]"
    by (simp add: List_eval)
qed

theorem List_refines_deque_witness:
  "List_trace (snd (List_init (Some [1, 2 :: int]))) [Pop_back, Push_front 7, Pop_back, Pop_front, Pop_front, Back] =
   [(Inr (Some 2), 1), (Inr None, 2), (Inr (Some 1), 1), (Inr (Some 7), 0),
    (Inl IndexError, 0), (Inl IndexError, 0)]"
  using List_refines_deque[of "Some [1, 2 :: int]" "[Pop_back, Push_front 7, Pop_back, Pop_front, Pop_front, Back]"]
  by (simp add: initial_deque_def)

text \<open>
  C8. Iterating a list ends, and yields exactly the values the list holds at that
  moment, front to back: the contents of the reference deque after the same calls.
  Their number is \<^verbatim>\<open>size()\<close>.
\<close>

theorem List_iter_yields_contents:
  "List_iter (reached i cs) = Some (deque_after (initial_deque i) cs) \<and>
   int (length (deque_after (initial_deque i) cs)) = List_size (reached i cs)"
  using reached_models[of i cs] by (simp add: iter_models models_size)

theorem List_iter_yields_contents_witness:
  "List_iter (reached (Some [10, 20, 30 :: int]) [Push_front 5, Pop_back, Push_back 40]) =
     Some [5, 10, 20, 40] \<and>
   List_size (reached (Some [10, 20, 30 :: int]) [Push_front 5, Pop_back, Push_back 40]) = 4"
  using List_iter_yields_contents[of "Some [10, 20, 30 :: int]" "[Push_front 5, Pop_back, Push_back 40]"]
  by (simp add: initial_deque_def)

text \<open>
  C10. On a list of at least two elements, \<^verbatim>\<open>pop_front()\<close> returns the first element
  and removes only it: the sequence of elements afterwards is the old one without its
  first element, and \<^verbatim>\<open>back()\<close> answers as before. Symmetrically \<^verbatim>\<open>pop_back()\<close>
  returns and removes only the last element, and \<^verbatim>\<open>front()\<close> answers as before.
\<close>

theorem List_pop_removes_one_end:
  assumes "List_iter (reached i cs) = Some xs" and "2 \<le> length xs"
  shows "fst (List_pop_front (reached i cs)) = Inr (hd xs) \<and>
         List_iter (snd (List_pop_front (reached i cs))) = Some (tl xs) \<and>
         fst (List_back (snd (List_pop_front (reached i cs)))) = Inr (last xs) \<and>
         fst (List_back (reached i cs)) = Inr (last xs) \<and>
         fst (List_pop_back (reached i cs)) = Inr (last xs) \<and>
         List_iter (snd (List_pop_back (reached i cs))) = Some (butlast xs) \<and>
         fst (List_front (snd (List_pop_back (reached i cs)))) = Inr (hd xs) \<and>
         fst (List_front (reached i cs)) = Inr (hd xs)"
proof -
  let ?l = "reached i cs"
  have m: "models ?l xs"
    using reached_models[of i cs] assms(1) by (simp add: iter_models)
  from assms(2) obtain x y r where xs: "xs = x # y # r"
    by (cases xs; cases "tl xs") auto
  from call_models[OF m, of Pop_front] xs
  have pf: "fst (List_pop_front ?l) = Inr x" and mf: "models (snd (List_pop_front ?l)) (y # r)"
    by (auto simp: returns_value_def split: prod.splits sum.splits)
  from call_models[OF m, of Pop_back] xs
  have pb: "fst (List_pop_back ?l) = Inr (last xs)"
    and mb: "models (snd (List_pop_back ?l)) (butlast xs)"
    by (auto simp: returns_value_def split: prod.splits sum.splits)
  from call_models[OF m, of Back] xs have b: "fst (List_back ?l) = Inr (last xs)"
    by (auto simp: returns_value_def split: prod.splits sum.splits)
  from call_models[OF m, of Front] xs have f: "fst (List_front ?l) = Inr (hd xs)"
    by (auto simp: returns_value_def split: prod.splits sum.splits)
  from call_models[OF mf, of Back] xs
  have bf: "fst (List_back (snd (List_pop_front ?l))) = Inr (last xs)"
    by (auto simp: returns_value_def split: prod.splits sum.splits)
  from call_models[OF mb, of Front] xs
  have fb: "fst (List_front (snd (List_pop_back ?l))) = Inr (hd xs)"
    by (auto simp: returns_value_def split: prod.splits sum.splits)
  from pf mf pb mb b f bf fb xs show ?thesis
    by (simp add: iter_models)
qed

theorem List_pop_removes_one_end_witness:
  "fst (List_pop_front (reached None [Push_back 1, Push_back 2, Push_back (3 :: int)])) = Inr 1 \<and>
   List_iter (snd (List_pop_front (reached None [Push_back 1, Push_back 2, Push_back (3 :: int)]))) = Some [2, 3] \<and>
   fst (List_back (snd (List_pop_front (reached None [Push_back 1, Push_back 2, Push_back (3 :: int)])))) = Inr 3 \<and>
   fst (List_pop_back (reached None [Push_back 1, Push_back 2, Push_back (3 :: int)])) = Inr 3 \<and>
   List_iter (snd (List_pop_back (reached None [Push_back 1, Push_back 2, Push_back (3 :: int)]))) = Some [1, 2] \<and>
   fst (List_front (snd (List_pop_back (reached None [Push_back 1, Push_back 2, Push_back (3 :: int)])))) = Inr 1"
proof -
  have h: "List_iter (reached None [Push_back 1, Push_back 2, Push_back (3 :: int)]) = Some [1, 2, 3]"
    by (simp add: List_eval)
  from List_pop_removes_one_end[OF h] show ?thesis by simp
qed

section \<open>The claims about the priority queue and about both containers\<close>

text \<open>
  C1. A default-ordered queue is meant to hand out its elements greatest first, for
  numbers and for strings. The source does so for numbers, which it stores negated
  (pushing 3, 1, 4, 1 pops 4, 3, 1, 1). A string \<open>s\<close> it stores as the tuple
  \<^verbatim>\<open>(s, -1)\<close>, which orders like \<open>s\<close> itself: after pushing \<^verbatim>\<open>"a"\<close> and \<^verbatim>\<open>"b"\<close>, in
  either order, the pops answer \<^verbatim>\<open>("a", -1)\<close> and then \<^verbatim>\<open>("b", -1)\<close>, the smaller string
  first.
\<close>

theorem default_order_strings_ascending:
  "fst (pop_until_empty (snd (push_all (snd (PriorityQueue_init None None))
          [VStr ''a'', VStr ''b'']))) =
     Inr [VTuple (VStr ''a'') (VInt (- 1)), VTuple (VStr ''b'') (VInt (- 1))] \<and>
   fst (pop_until_empty (snd (push_all (snd (PriorityQueue_init None None))
          [VStr ''b'', VStr ''a'']))) =
     Inr [VTuple (VStr ''a'') (VInt (- 1)), VTuple (VStr ''b'') (VInt (- 1))] \<and>
   py_lt (VStr ''a'') (VStr ''b'') = Some True \<and>
   fst (pop_until_empty (snd (push_all (snd (PriorityQueue_init None None))
          [VInt 3, VInt 1, VInt 4, VInt 1]))) =
     Inr [VInt 4, VInt 3, VInt 1, VInt 1]"
  by (simp add: PriorityQueue_eval eval_nat_numeral)

text \<open>
  C2. A comparator given to the constructor is meant to decide the order of the pops.
  The source keeps it in a field and never calls it: with \<open>greater_first\<close>, under
  which 2 has priority over 1, the queue still pops 1 before 2, in whichever order the
  two were pushed.
\<close>

theorem custom_comparator_ignored:
  "greater_first (VInt 2) (VInt 1) \<and> \<not> greater_first (VInt 1) (VInt 2) \<and>
   fst (pop_until_empty (snd (push_all (snd (PriorityQueue_init None (Some greater_first)))
          [VInt 2, VInt 1]))) = Inr [VInt 1, VInt 2] \<and>
   fst (pop_until_empty (snd (push_all (snd (PriorityQueue_init None (Some greater_first)))
          [VInt 1, VInt 2]))) = Inr [VInt 1, VInt 2]"
  by (simp add: PriorityQueue_eval eval_nat_numeral)

text \<open>
  C3. Pushing \<open>n\<close> elements and popping \<open>n\<close> times is meant to give back the pushed
  values. A default-ordered queue gives back a pushed string \<^verbatim>\<open>"x"\<close> as the tuple
  \<^verbatim>\<open>("x", -1)\<close>, which is not the pushed value.
\<close>

theorem default_order_string_returned_wrapped:
  "fst (pop_times 1 (snd (push_all (snd (PriorityQueue_init None None)) [VStr ''x'']))) =
     Inr [VTuple (VStr ''x'') (VInt (- 1))] \<and>
   mset [VTuple (VStr ''x'') (VInt (- 1))] \<noteq> mset [VStr ''x'']"
  by (simp add: PriorityQueue_eval)

text \<open>
  C4. On an empty list (\<^verbatim>\<open>size() == 0\<close>) each of \<^verbatim>\<open>pop_front\<close>, \<^verbatim>\<open>pop_back\<close>,
  \<^verbatim>\<open>front\<close> and \<^verbatim>\<open>back\<close>, and on an empty priority queue each of \<^verbatim>\<open>pop\<close> and
  \<^verbatim>\<open>top\<close>, raises \<^verbatim>\<open>IndexError\<close> (the specification's \<^verbatim>\<open>EmptyContainer\<close>) and leaves
  the container exactly as it was, with \<^verbatim>\<open>size()\<close> still 0.
\<close>

theorem empty_container_errors:
  "(List_empty l \<longrightarrow>
      List_pop_front l = (Inl IndexError, l) \<and> List_pop_back l = (Inl IndexError, l) \<and>
      List_front l = (Inl IndexError, l) \<and> List_back l = (Inl IndexError, l) \<and>
      List_size l = 0) \<and>
   (PriorityQueue_empty q \<longrightarrow>
      PriorityQueue_pop q = (Inl IndexError, q) \<and> PriorityQueue_top q = (Inl IndexError, q) \<and>
      PriorityQueue_size q = 0)"
  by (simp add: List_pop_front_def List_pop_back_def List_front_def List_back_def List_size_def
      List_empty_def PriorityQueue_pop_def PriorityQueue_top_def PriorityQueue_size_def
      PriorityQueue_empty_def)

theorem empty_container_errors_witness:
  "List_pop_front (reached None [Push_back (1 :: int), Pop_front]) =
     (Inl IndexError, reached None [Push_back 1, Pop_front]) \<and>
   List_pop_back (reached None [Push_back (1 :: int), Pop_front]) =
     (Inl IndexError, reached None [Push_back 1, Pop_front]) \<and>
   List_front (reached None [Push_back (1 :: int), Pop_front]) =
     (Inl IndexError, reached None [Push_back 1, Pop_front]) \<and>
   List_back (reached None [Push_back (1 :: int), Pop_front]) =
     (Inl IndexError, reached None [Push_back 1, Pop_front]) \<and>
   List_size (reached None [Push_back (1 :: int), Pop_front]) = 0 \<and>
   PriorityQueue_pop (snd (PriorityQueue_init None None)) =
     (Inl IndexError, snd (PriorityQueue_init None None)) \<and>
   PriorityQueue_top (snd (PriorityQueue_init None None)) =
     (Inl IndexError, snd (PriorityQueue_init None None)) \<and>
   PriorityQueue_size (snd (PriorityQueue_init None None)) = 0"
proof -
  have l: "List_empty (reached None [Push_back (1 :: int), Pop_front])"
    by (simp add: List_eval)
  have q: "PriorityQueue_empty (snd (PriorityQueue_init None None))"
    by (simp add: PriorityQueue_eval)
  from empty_container_errors[of "reached None [Push_back (1 :: int), Pop_front]"
      "snd (PriorityQueue_init None None)"] l q
  show ?thesis by simp
qed

text \<open>
  C7. Insertion never fails and adds one to \<^verbatim>\<open>size()\<close>: \<^verbatim>\<open>push_front\<close> and
  \<^verbatim>\<open>push_back\<close> on every list a client can hold, with any value; \<^verbatim>\<open>push\<close> on every
  priority queue of elements of a type \<open>t\<close>, with any element of type \<open>t\<close>, and the
  queue is again one of elements of type \<open>t\<close>. Hence the constructors, which insert the
  initial elements one by one, do not fail either: the list's for any initial
  elements, the queue's for initial elements of one type.
\<close>

theorem insertion_never_fails:
  "fst (List_push_front (reached i cs) v) = Inr () \<and>
   List_size (snd (List_push_front (reached i cs) v)) = List_size (reached i cs) + 1 \<and>
   fst (List_push_back (reached i cs) v) = Inr () \<and>
   List_size (snd (List_push_back (reached i cs) v)) = List_size (reached i cs) + 1 \<and>
   fst (List_init i) = Inr () \<and>
   (holds q t \<and> type_of w = t \<longrightarrow>
      fst (PriorityQueue_push q w) = Inr () \<and>
      PriorityQueue_size (snd (PriorityQueue_push q w)) = PriorityQueue_size q + 1 \<and>
      holds (snd (PriorityQueue_push q w)) t) \<and>
   (all_of_type t ws \<longrightarrow>
      fst (PriorityQueue_init (Some ws) compare) = Inr () \<and>
      PriorityQueue_size (snd (PriorityQueue_init (Some ws) compare)) = int (length ws) \<and>
      holds (snd (PriorityQueue_init (Some ws) compare)) t) \<and>
   fst (PriorityQueue_init None compare) = Inr ()"
proof -
  let ?l = "reached i cs"
  obtain as where r: "rep ?l as" using reached_rep[of i cs] ..
  have sz: "List_size ?l = int (length as)" using r by (simp add: rep_def List_size_def)
  from push_front_rep(1,2)[OF r, of v]
  have pf: "fst (List_push_front ?l v) = Inr ()"
    "List_size (snd (List_push_front ?l v)) = List_size ?l + 1"
    using sz by (simp_all add: rep_def List_size_def)
  from push_back_rep(1,2)[OF r, of v]
  have pb: "fst (List_push_back ?l v) = Inr ()"
    "List_size (snd (List_push_back ?l v)) = List_size ?l + 1"
    using sz by (simp_all add: rep_def List_size_def)
  have li: "fst (List_init i) = Inr ()" using init_models[of i] by simp
  have pq: "holds q t \<and> type_of w = t \<longrightarrow>
      fst (PriorityQueue_push q w) = Inr () \<and>
      PriorityQueue_size (snd (PriorityQueue_push q w)) = PriorityQueue_size q + 1 \<and>
      holds (snd (PriorityQueue_push q w)) t"
    using push_holds[of q t w] by blast
  let ?q0 = "\<lparr>heap_data = [], reverse_f = (compare = None), compare_f = compare\<rparr>"
  have h0: "holds ?q0 t" by (simp add: holds_def all_of_type_def)
  have s0: "PriorityQueue_size ?q0 = 0" by (simp add: PriorityQueue_size_def)
  have qi: "all_of_type t ws \<longrightarrow>
      fst (PriorityQueue_init (Some ws) compare) = Inr () \<and>
      PriorityQueue_size (snd (PriorityQueue_init (Some ws) compare)) = int (length ws) \<and>
      holds (snd (PriorityQueue_init (Some ws) compare)) t"
    using push_all_holds[OF h0, of ws] s0 by (simp add: PriorityQueue_init_def)
  have qn: "fst (PriorityQueue_init None compare) = Inr ()"
    by (simp add: PriorityQueue_init_def)
  from pf pb li pq qi qn show ?thesis by blast
qed

theorem insertion_never_fails_witness:
  "fst (List_push_front (reached (Some [1, 2 :: int]) [Pop_front]) 7) = Inr () \<and>
   List_size (snd (List_push_front (reached (Some [1, 2 :: int]) [Pop_front]) 7)) = 2 \<and>
   fst (List_push_back (reached (Some [1, 2 :: int]) [Pop_front]) 7) = Inr () \<and>
   List_size (snd (List_push_back (reached (Some [1, 2 :: int]) [Pop_front]) 7)) = 2 \<and>
   fst (PriorityQueue_push (snd (PriorityQueue_init (Some [VStr ''b'', VStr ''c'']) None))
          (VStr ''a'')) = Inr () \<and>
   PriorityQueue_size (snd (PriorityQueue_push
          (snd (PriorityQueue_init (Some [VStr ''b'', VStr ''c'']) None)) (VStr ''a''))) = 3 \<and>
   fst (PriorityQueue_init (Some [VInt 3, VInt 1, VInt 4, VInt 1]) None) = Inr () \<and>
   PriorityQueue_size (snd (PriorityQueue_init (Some [VInt 3, VInt 1, VInt 4, VInt 1]) None)) = 4"
proof -
  have l: "List_size (reached (Some [1, 2 :: int]) [Pop_front]) = 1"
    by (simp add: List_eval)
  have h: "holds (snd (PriorityQueue_init (Some [VStr ''b'', VStr ''c'']) None)) TStr \<and>
           type_of (VStr ''a'') = TStr"
    by (simp add: PriorityQueue_eval)
  have s: "PriorityQueue_size (snd (PriorityQueue_init (Some [VStr ''b'', VStr ''c'']) None)) = 2"
    by (simp add: PriorityQueue_eval)
  have a: "all_of_type TInt [VInt 3, VInt 1, VInt 4, VInt 1]"
    by (simp add: all_of_type_def)
  from insertion_never_fails[where i = "Some [1, 2 :: int]" and cs = "[Pop_front]" and v = 7
      and q = "snd (PriorityQueue_init (Some [VStr ''b'', VStr ''c'']) None)" and t = TStr
      and w = "VStr ''a''" and ws = "[]" and compare = None] h s l
  have 1: "fst (List_push_front (reached (Some [1, 2 :: int]) [Pop_front]) 7) = Inr ()"
    "List_size (snd (List_push_front (reached (Some [1, 2 :: int]) [Pop_front]) 7)) = 2"
    "fst (List_push_back (reached (Some [1, 2 :: int]) [Pop_front]) 7) = Inr ()"
    "List_size (snd (List_push_back (reached (Some [1, 2 :: int]) [Pop_front]) 7)) = 2"
    "fst (PriorityQueue_push (snd (PriorityQueue_init (Some [VStr ''b'', VStr ''c'']) None))
          (VStr ''a'')) = Inr ()"
    "PriorityQueue_size (snd (PriorityQueue_push
          (snd (PriorityQueue_init (Some [VStr ''b'', VStr ''c'']) None)) (VStr ''a''))) = 3"
    by simp_all
  from insertion_never_fails[where i = None and cs = "[]" and v = "0 :: int"
      and q = "snd (PriorityQueue_init None None)" and w = "VInt 0"
      and t = TInt and ws = "[VInt 3, VInt 1, VInt 4, VInt 1]" and compare = None] a
  have 2: "fst (PriorityQueue_init (Some [VInt 3, VInt 1, VInt 4, VInt 1]) None) = Inr ()"
    "PriorityQueue_size (snd (PriorityQueue_init (Some [VInt 3, VInt 1, VInt 4, VInt 1]) None)) = 4"
    by simp_all
  from 1 2 show ?thesis by simp
qed

text \<open>
  C9. The claim is that on every non-empty priority queue \<^verbatim>\<open>top()\<close> returns the value
  that a \<^verbatim>\<open>pop()\<close> made next returns, and leaves the storage and \<^verbatim>\<open>size()\<close> as they
  are. As stated it fails: tuples whose first components differ are pushed without
  any comparison of their second components, and a later \<^verbatim>\<open>pop\<close> that has to compare
  \<^verbatim>\<open>(2, "b")\<close> with \<^verbatim>\<open>(2, 5)\<close> raises \<^verbatim>\<open>TypeError\<close> where \<^verbatim>\<open>top\<close> answered. What holds
  of every non-empty queue: \<^verbatim>\<open>top()\<close> returns a value and leaves the queue as it is,
  and the \<^verbatim>\<open>pop()\<close> made next either returns that same value or raises \<^verbatim>\<open>TypeError\<close>;
  it returns the value whenever the queue is one of elements of a single type.
\<close>

theorem top_then_pop:
  assumes "\<not> PriorityQueue_empty q"
  shows "\<exists>v. PriorityQueue_top q = (Inr v, q) \<and>
             (fst (PriorityQueue_pop q) = Inr v \<or> fst (PriorityQueue_pop q) = Inl TypeError) \<and>
             (holds q t \<longrightarrow> fst (PriorityQueue_pop q) = Inr v)"
proof -
  let ?v = "if reverse_f q \<and> is_number (heap_data q ! 0) then py_neg (heap_data q ! 0)
            else heap_data q ! 0"
  from assms have ne: "heap_data q \<noteq> []" by (simp add: PriorityQueue_empty_def)
  from assms have top: "PriorityQueue_top q = (Inr ?v, q)"
    by (simp add: PriorityQueue_top_def Let_def)
  from heappop_answers[OF ne] assms
  have pop: "fst (PriorityQueue_pop q) = Inr ?v \<or> fst (PriorityQueue_pop q) = Inl TypeError"
    by (auto simp: PriorityQueue_pop_def split: prod.splits sum.splits)
  have typed: "holds q t \<longrightarrow> fst (PriorityQueue_pop q) = Inr ?v"
    using pop_holds(1)[OF _ assms, of t] top by simp
  from top pop typed show ?thesis by blast
qed

theorem top_then_pop_witness:
  "PriorityQueue_top (snd (PriorityQueue_init (Some [VInt 3, VInt 1, VInt 4, VInt 1]) None)) =
     (Inr (VInt 4), snd (PriorityQueue_init (Some [VInt 3, VInt 1, VInt 4, VInt 1]) None)) \<and>
   fst (PriorityQueue_pop (snd (PriorityQueue_init (Some [VInt 3, VInt 1, VInt 4, VInt 1]) None))) =
     Inr (VInt 4)"
proof -
  let ?q = "snd (PriorityQueue_init (Some [VInt 3, VInt 1, VInt 4, VInt 1]) None)"
  have h: "holds ?q TInt" by (simp add: PriorityQueue_eval)
  have n: "\<not> PriorityQueue_empty ?q" by (simp add: PriorityQueue_eval)
  have t: "fst (PriorityQueue_top ?q) = Inr (VInt 4)" by (simp add: PriorityQueue_eval)
  from top_then_pop[OF n, of TInt] h obtain v
    where v: "PriorityQueue_top ?q = (Inr v, ?q)" "fst (PriorityQueue_pop ?q) = Inr v"
    by blast
  with t have "v = VInt 4" by simp
  with v show ?thesis by simp
qed

theorem top_then_pop_counterexample:
  "fst (push_all (snd (PriorityQueue_init None None))
         [VTuple (VInt 1) (VStr ''a''), VTuple (VInt 2) (VInt 5), VTuple (VInt 2) (VStr ''b'')]) =
     Inr () \<and>
   \<not> PriorityQueue_empty (snd (push_all (snd (PriorityQueue_init None None))
         [VTuple (VInt 1) (VStr ''a''), VTuple (VInt 2) (VInt 5), VTuple (VInt 2) (VStr ''b'')])) \<and>
   fst (PriorityQueue_top (snd (push_all (snd (PriorityQueue_init None None))
         [VTuple (VInt 1) (VStr ''a''), VTuple (VInt 2) (VInt 5), VTuple (VInt 2) (VStr ''b'')]))) =
     Inr (VTuple (VTuple (VInt 1) (VStr ''a'')) (VInt (- 1))) \<and>
   fst (PriorityQueue_pop (snd (push_all (snd (PriorityQueue_init None None))
         [VTuple (VInt 1) (VStr ''a''), VTuple (VInt 2) (VInt 5), VTuple (VInt 2) (VStr ''b'')]))) =
     Inl TypeError"
  by (simp add: PriorityQueue_eval eval_nat_numeral)

end
